theory Spec2Isabelle
  imports Complex_Main "HOL-Library.Sublist" "HOL-Library.Log_Nat"
begin

section \<open>JavaScript numbers\<close>

text \<open>
  The layout arithmetic runs on JavaScript numbers, the IEEE 754 doubles: \<open>NaN\<close>, the two
  infinities, the two zeros (\<open>Num 0\<close> is the positive one) and the finite values \<open>Num r\<close>.
  The result of a division or an addition of finite values is the exact result rounded to the
  nearest double (\<open>round_double\<close>).
\<close>

datatype number = NaN | NegInf | PosInf | NegZero | Num real

fun is_zero :: "number \<Rightarrow> bool" where
  "is_zero NegZero = True"
| "is_zero (Num r) = (r = 0)"
| "is_zero _ = False"

fun is_inf :: "number \<Rightarrow> bool" where
  "is_inf NegInf = True"
| "is_inf PosInf = True"
| "is_inf _ = False"

fun negative :: "number \<Rightarrow> bool" where
  "negative NegInf = True"
| "negative NegZero = True"
| "negative (Num r) = (r < 0)"
| "negative _ = False"

fun val :: "number \<Rightarrow> real" where
  "val (Num r) = r"
| "val _ = 0"

fun rank :: "number \<Rightarrow> int" where
  "rank NegInf = - 1"
| "rank PosInf = 1"
| "rank _ = 0"

text \<open>Powers of two with integer exponents.\<close>

definition pow2 :: "int \<Rightarrow> real" where
  "pow2 e = (if 0 \<le> e then 2 ^ nat e else 1 / 2 ^ nat (- e))"

text \<open>Rounding to the nearest integer, a tie going to the even one.\<close>

definition round_half_even :: "real \<Rightarrow> int" where
  "round_half_even q =
     (let f = \<lfloor>q\<rfloor>
      in if q - of_int f < 1 / 2 then f
         else if 1 / 2 < q - of_int f then f + 1
         else if even f then f else f + 1)"

text \<open>The exponent \<open>e\<close> of a positive real \<open>a\<close>, with \<open>2 ^ e \<le> a < 2 ^ (e + 1)\<close>, read
  from the bit length of \<open>a\<close> scaled by \<open>2 ^ 1074\<close>; below \<open>2 ^ (- 1022)\<close>, where the doubles
  are subnormal, it is \<open>- 1022\<close>.\<close>

definition double_exponent :: "real \<Rightarrow> int" where
  "double_exponent a = max (bitlen \<lfloor>a * 2 ^ 1074\<rfloor> - 1075) (- 1022)"

text \<open>An exact result other than zero as a double: rounded to 53 significant bits (to a
  multiple of \<open>2 ^ (- 1074)\<close> in the subnormal range), to nearest and on a tie to even; a
  result rounded to \<open>2 ^ 1024\<close> overflows to an infinity, one rounded to nothing underflows
  to the zero of its sign.\<close>

definition round_double :: "real \<Rightarrow> number" where
  "round_double x =
     (if x = 0 then Num 0
      else
        let a = \<bar>x\<bar>;
            ulp = pow2 (double_exponent a - 52);
            r = of_int (round_half_even (a / ulp)) * ulp
        in if pow2 1024 \<le> r then (if x < 0 then NegInf else PosInf)
           else if r = 0 then (if x < 0 then NegZero else Num 0)
           else Num (if x < 0 then - r else r))"

text \<open>The operator \<open>/\<close>: the sign of the result is the exclusive or of the signs.\<close>

definition js_div :: "number \<Rightarrow> number \<Rightarrow> number" where
  "js_div x y =
     (if x = NaN \<or> y = NaN then NaN
      else if (is_zero x \<and> is_zero y) \<or> (is_inf x \<and> is_inf y) then NaN
      else if is_inf x \<or> is_zero y then (if negative x \<noteq> negative y then NegInf else PosInf)
      else if is_zero x \<or> is_inf y then (if negative x \<noteq> negative y then NegZero else Num 0)
      else round_double (val x / val y))"

text \<open>The operator \<open>+\<close>: two finite values of sum zero give the positive zero, but for
  two negative zeros.\<close>

definition js_add :: "number \<Rightarrow> number \<Rightarrow> number" where
  "js_add x y =
     (if x = NaN \<or> y = NaN then NaN
      else if is_inf x \<and> is_inf y then (if x = y then x else NaN)
      else if is_inf x then x
      else if is_inf y then y
      else if x = NegZero \<and> y = NegZero then NegZero
      else round_double (val x + val y))"

text \<open>The comparison \<open><\<close> and the strict equality \<open>===\<close>: both are false on \<open>NaN\<close>,
  and the two zeros are equal.\<close>

definition js_lt :: "number \<Rightarrow> number \<Rightarrow> bool" where
  "js_lt x y = (x \<noteq> NaN \<and> y \<noteq> NaN \<and> (rank x < rank y \<or> (rank x = rank y \<and> val x < val y)))"

definition strict_eq :: "number \<Rightarrow> number \<Rightarrow> bool" where
  "strict_eq x y = (x \<noteq> NaN \<and> y \<noteq> NaN \<and> (x = y \<or> (is_zero x \<and> is_zero y)))"

text \<open>\<open>Math.min(...xs)\<close>: starts from \<open>+Infinity\<close>, answers \<open>NaN\<close> as soon as one
  argument is \<open>NaN\<close>, and prefers the negative zero to the positive one.\<close>

definition min_step :: "number \<Rightarrow> number \<Rightarrow> number" where
  "min_step lowest x =
     (if lowest = NaN \<or> x = NaN then NaN
      else if x = NegZero \<and> lowest = Num 0 then NegZero
      else if js_lt x lowest then x
      else lowest)"

definition math_min :: "number list \<Rightarrow> number" where
  "math_min xs = foldl min_step PosInf xs"

text \<open>\<open>Array.prototype.indexOf\<close>: the first index whose element is strictly equal to the
  value searched, \<open>-1\<close> when there is none.\<close>

fun indexOf :: "number list \<Rightarrow> number \<Rightarrow> int" where
  "indexOf [] v = - 1"
| "indexOf (x # xs) v =
     (if strict_eq x v then 0
      else (let r = indexOf xs v in if r = - 1 then - 1 else r + 1))"

section \<open>The content model (api.ts)\<close>

record KlipyFile =
  url :: string
  width :: number
  height :: number
  byte_size :: number

record KlipyFileVariant =
  gif :: KlipyFile
  webp :: KlipyFile

record KlipyFiles =
  hd_tier :: KlipyFileVariant
  md_tier :: KlipyFileVariant
  sm_tier :: KlipyFileVariant
  xs_tier :: KlipyFileVariant

record KlipyContent =
  content_id :: int
  slug :: string
  title :: string
  blur_preview :: string
  files :: KlipyFiles
  tags :: "string list"
  content_type :: string

datatype GifSize = XS | SM | MD | HD

fun tier :: "KlipyFiles \<Rightarrow> GifSize \<Rightarrow> KlipyFileVariant" where
  "tier f XS = xs_tier f"
| "tier f SM = sm_tier f"
| "tier f MD = md_tier f"
| "tier f HD = hd_tier f"

definition getContentDimensions :: "KlipyContent \<Rightarrow> GifSize \<Rightarrow> number \<times> number" where
  "getContentDimensions content sz =
     (let variant = gif (tier (files content) sz) in (width variant, height variant))"

record page =
  results :: "KlipyContent list"
  current_page :: int
  per_page :: int
  has_next :: bool

record infinite_data =
  pages :: "page list"

definition getNextPageParam :: "page \<Rightarrow> int option" where
  "getNextPageParam d = (if \<not> has_next d then None else Some (current_page d + 1))"

section \<open>The column layout (App.tsx)\<close>

definition minColumnWidth :: "string \<Rightarrow> int" where
  "minColumnWidth mode = (if mode = ''image'' then 120 else 110)"

definition columnGap :: int where
  "columnGap = 8"

definition sidePadding :: int where
  "sidePadding = 15 * 2"

definition heightForContent :: "KlipyContent \<Rightarrow> number \<Rightarrow> number" where
  "heightForContent content columnWidth =
     (let (w, h) = getContentDimensions content MD;
          ratio = js_div w h
      in js_div columnWidth ratio)"

datatype error = LogicError

record layout_state =
  seenContent :: "int set"
  columns :: "KlipyContent list list"
  heightPerColumn :: "number list"

definition initial_layout :: "nat \<Rightarrow> layout_state" where
  "initial_layout columnCount =
     \<lparr>seenContent = {}, columns = replicate columnCount [],
      heightPerColumn = replicate columnCount (Num 0)\<rparr>"

text \<open>The body of the inner loop, for one content item. An item already seen is passed over;
  so is an item for which \<open>indexOf\<close> answers \<open>-1\<close>, after its id was recorded. The push is
  guarded by \<open>?.\<close>, the accumulator by the thrown "Logic error".\<close>

definition place :: "number \<Rightarrow> layout_state \<Rightarrow> KlipyContent \<Rightarrow> error + layout_state" where
  "place columnWidth st content =
     (if content_id content \<in> seenContent st then Inr st
      else
        let st1 = st\<lparr>seenContent := insert (content_id content) (seenContent st)\<rparr>;
            itemHeight = heightForContent content columnWidth;
            minColumnIndex = indexOf (heightPerColumn st1) (math_min (heightPerColumn st1))
        in if minColumnIndex = - 1 then Inr st1
           else
             let i = nat minColumnIndex;
                 st2 = (if 0 \<le> minColumnIndex \<and> i < length (columns st1)
                        then st1\<lparr>columns := (columns st1)[i := columns st1 ! i @ [content]]\<rparr>
                        else st1)
             in if \<not> (0 \<le> minColumnIndex \<and> i < length (heightPerColumn st2)) then Inl LogicError
                else Inr (st2\<lparr>heightPerColumn :=
                            (heightPerColumn st2)[i := js_add (heightPerColumn st2 ! i) itemHeight]\<rparr>))"

text \<open>The inner loop over the results of one page, and the outer loop over the pages.\<close>

fun place_results :: "number \<Rightarrow> layout_state \<Rightarrow> KlipyContent list \<Rightarrow> error + layout_state" where
  "place_results columnWidth st [] = Inr st"
| "place_results columnWidth st (content # rest) =
     (case place columnWidth st content of
        Inl e \<Rightarrow> Inl e
      | Inr st' \<Rightarrow> place_results columnWidth st' rest)"

fun place_pages :: "number \<Rightarrow> layout_state \<Rightarrow> page list \<Rightarrow> error + layout_state" where
  "place_pages columnWidth st [] = Inr st"
| "place_pages columnWidth st (p # ps) =
     (case place_results columnWidth st (results p) of
        Inl e \<Rightarrow> Inl e
      | Inr st' \<Rightarrow> place_pages columnWidth st' ps)"

text \<open>The geometry: \<open>window.innerWidth\<close> is an integer of the DOM.\<close>

definition columnCount_of :: "string \<Rightarrow> int \<Rightarrow> int" where
  "columnCount_of mode deferredWindowWidth =
     (let adjustedWindowWidth = deferredWindowWidth - sidePadding
      in max 1 \<lfloor>real_of_int (adjustedWindowWidth + columnGap)
                 / real_of_int (minColumnWidth mode + columnGap)\<rfloor>)"

definition columnWidth_of :: "string \<Rightarrow> int \<Rightarrow> number" where
  "columnWidth_of mode deferredWindowWidth =
     (let adjustedWindowWidth = deferredWindowWidth - sidePadding;
          columnCount = columnCount_of mode deferredWindowWidth
      in js_div (Num (real_of_int (adjustedWindowWidth - (columnCount - 1) * columnGap)))
                (Num (real_of_int columnCount)))"

text \<open>The memoised pair \<open>[contentColumns, columnWidth]\<close>.\<close>

definition contentColumns ::
  "string \<Rightarrow> infinite_data option \<Rightarrow> int \<Rightarrow> error + (KlipyContent list list \<times> number)" where
  "contentColumns mode data deferredWindowWidth =
     (let columnCount = columnCount_of mode deferredWindowWidth;
          columnWidth = columnWidth_of mode deferredWindowWidth;
          st0 = initial_layout (nat columnCount)
      in case data of
           None \<Rightarrow> Inr (columns st0, columnWidth)
         | Some d \<Rightarrow>
             (case place_pages columnWidth st0 (pages d) of
                Inl e \<Rightarrow> Inl e
              | Inr st \<Rightarrow> Inr (columns st, columnWidth)))"

section \<open>The scroll and resize coordinator (App.tsx)\<close>

text \<open>What the component reads from the infinite query, the scroll container behind
  \<open>scrollRef\<close> (absent while the grid is not mounted), and the window.\<close>

record query_result =
  data :: "infinite_data option"
  isFetchingNextPage :: bool
  isLoading :: bool
  hasNextPage :: bool

record scroll_element =
  scrollHeight :: real
  clientHeight :: real
  scrollTop :: real

record window =
  innerWidth :: int
  innerHeight :: int

text \<open>The component's own state: the width kept by \<open>useState\<close>, its deferred copy
  (\<open>useDeferredValue\<close>) and the height kept in a ref.\<close>

record component =
  windowWidth :: int
  deferredWindowWidth :: int
  previousWindowHeight :: int

text \<open>The calls a handler makes, in order.\<close>

datatype call = HandleScroll | FetchNextPage

definition handleScroll :: "query_result \<Rightarrow> scroll_element option \<Rightarrow> call list" where
  "handleScroll q scrollRef =
     (if isFetchingNextPage q \<or> isLoading q then []
      else case scrollRef of
             None \<Rightarrow> []
           | Some scrollElement \<Rightarrow>
               (let distanceToEnd =
                      scrollHeight scrollElement - (clientHeight scrollElement + scrollTop scrollElement)
                in if distanceToEnd > 150 then [] else [FetchNextPage]))"

definition handleResize ::
  "query_result \<Rightarrow> scroll_element option \<Rightarrow> window \<Rightarrow> component \<Rightarrow> component \<times> call list" where
  "handleResize q scrollRef win c =
     (let c1 = c\<lparr>windowWidth := innerWidth win\<rparr>;
          calls = (if innerHeight win > previousWindowHeight c1
                   then HandleScroll # handleScroll q scrollRef else [])
      in (c1\<lparr>previousWindowHeight := innerHeight win\<rparr>, calls))"

text \<open>Modelled from the spec: the deferred copy of the width is the work of React's
  \<open>useDeferredValue\<close>, which is not among the sources. The render that follows a change of
  the width still sees the previous value; the deferred render that comes after it sees the
  new one (4.2, "Recomputation is triggered only by deferred (debounced-by-frame) viewport
  width changes").\<close>

definition deferred_render :: "component \<Rightarrow> component" where
  "deferred_render c = c\<lparr>deferredWindowWidth := windowWidth c\<rparr>"

text \<open>The effect that fills a viewport the content does not overflow.\<close>

definition autoFillEffect :: "query_result \<Rightarrow> scroll_element option \<Rightarrow> call list" where
  "autoFillEffect q scrollRef =
     (case scrollRef of
        None \<Rightarrow> []
      | Some scrollElement \<Rightarrow>
          if isLoading q then []
          else (let isScrollable = scrollHeight scrollElement > clientHeight scrollElement
                in if isScrollable \<or> \<not> hasNextPage q then [] else [FetchNextPage]))"

text \<open>What the component renders from its props (the content kind among them) and its
  state: the spinner while the user id is unknown, the "No ... found" line, or the grid of the
  columns at their width. The columns come from the deferred width.\<close>

datatype KlipyContentType = Gifs | Stickers

datatype view = Spinner | NoResults string | Grid "KlipyContent list list" number

definition GifsList ::
  "string \<Rightarrow> KlipyContentType \<Rightarrow> string \<Rightarrow> query_result \<Rightarrow> component \<Rightarrow> error + view" where
  "GifsList mode contentType userId q c =
     (case contentColumns mode (data q) (deferredWindowWidth c) of
        Inl e \<Rightarrow> Inl e
      | Inr (cols, columnWidth) \<Rightarrow>
          (let isLoadingVisible = isLoading q \<or> isFetchingNextPage q
           in if userId = [] then Inr Spinner
              else if \<not> isLoadingVisible \<and> (case cols of [] \<Rightarrow> False | c0 # _ \<Rightarrow> length c0 = 0)
                   then Inr (NoResults (if contentType = Gifs then ''GIFs'' else ''stickers''))
              else Inr (Grid cols columnWidth)))"

section \<open>The pagination source\<close>

text \<open>
  \<open>useListContentInfinite\<close> configures the infinite query hook of the query library with
  \<open>initialPageParam\<close> and \<open>getNextPageParam\<close>; the hook's own code, which keeps the pages and
  runs \<open>fetchNextPage\<close>, is not among the sources. The source below keeps the pages fetched,
  the page number of the request in flight, if any, and the page numbers of the network calls
  issued so far.
\<close>

record pagination_source =
  fetched :: "page list"
  in_flight :: "int option"
  network_calls :: "int list"

definition initialPageParam :: int where
  "initialPageParam = 1"

text \<open>Modelled from the spec: the first page is fetched by the source itself (4.1, "the first
  page is fetched automatically"); the hook that does it is not among the sources.\<close>

definition first_fetch :: pagination_source where
  "first_fetch = \<lparr>fetched = [], in_flight = Some initialPageParam, network_calls = [initialPageParam]\<rparr>"

text \<open>Modelled from the spec: \<open>fetchNextPage\<close> of the hook, which is not among the sources
  (4.1, "no-op if a fetch is already in flight or hasNext is false on the latest page;
  otherwise requests pageNumber = lastPage.currentPageNumber + 1"). The page number is the one
  \<open>getNextPageParam\<close> of the source computes. With no page yet there is no latest page, and
  nothing is requested.\<close>

definition fetchNextPage :: "pagination_source \<Rightarrow> pagination_source" where
  "fetchNextPage s =
     (if in_flight s \<noteq> None then s
      else case fetched s of
             [] \<Rightarrow> s
           | _ # _ \<Rightarrow>
               (case getNextPageParam (last (fetched s)) of
                  None \<Rightarrow> s
                | Some pageNumber \<Rightarrow>
                    s\<lparr>in_flight := Some pageNumber,
                      network_calls := network_calls s @ [pageNumber]\<rparr>))"

text \<open>Modelled from the spec: the arrival of the page requested, which the hook, not among
  the sources, appends (4.1, "appends the result to the page sequence in order").\<close>

definition page_arrives :: "(int \<Rightarrow> page) \<Rightarrow> pagination_source \<Rightarrow> pagination_source" where
  "page_arrives server s =
     (case in_flight s of
        None \<Rightarrow> s
      | Some pageNumber \<Rightarrow> s\<lparr>fetched := fetched s @ [server pageNumber], in_flight := None\<rparr>)"

section \<open>Predicates of the statements\<close>

text \<open>The items fetched so far, page after page.\<close>

definition fetched_items :: "infinite_data option \<Rightarrow> KlipyContent list" where
  "fetched_items dat = (case dat of None \<Rightarrow> [] | Some d \<Rightarrow> concat (map results (pages d)))"

text \<open>Column \<open>i\<close> is the leftmost of the columns of minimal accumulated height.\<close>

definition leftmost_min :: "number list \<Rightarrow> nat \<Rightarrow> bool" where
  "leftmost_min hs i =
     (i < length hs \<and> (\<forall>j<length hs. \<not> js_lt (hs ! j) (hs ! i)) \<and> (\<forall>j<i. js_lt (hs ! i) (hs ! j)))"

text \<open>Item \<open>k\<close> of the items carries an id not seen before it and arrives when an accumulated
  height is \<open>NaN\<close>.\<close>

definition arrives_at_NaN :: "number \<Rightarrow> nat \<Rightarrow> KlipyContent list \<Rightarrow> nat \<Rightarrow> bool" where
  "arrives_at_NaN columnWidth columnCount items k =
     (k < length items \<and>
      content_id (items ! k) \<notin> content_id ` set (take k items) \<and>
      (case place_results columnWidth (initial_layout columnCount) (take k items) of
         Inl e \<Rightarrow> False
       | Inr st \<Rightarrow> NaN \<in> set (heightPerColumn st)))"

text \<open>No sum that the loop forms is rounded: whenever an item with an id not seen before
  arrives, adding its height to the accumulator of the leftmost minimal column gives the
  exact sum.\<close>

definition sums_exact :: "number \<Rightarrow> nat \<Rightarrow> KlipyContent list \<Rightarrow> bool" where
  "sums_exact columnWidth columnCount items =
     (\<forall>k<length items.
        content_id (items ! k) \<notin> content_id ` set (take k items) \<longrightarrow>
        (case place_results columnWidth (initial_layout columnCount) (take k items) of
           Inl e \<Rightarrow> True
         | Inr st \<Rightarrow>
             (\<forall>i<length (heightPerColumn st).
                leftmost_min (heightPerColumn st) i \<longrightarrow>
                js_add (heightPerColumn st ! i) (heightForContent (items ! k) columnWidth) =
                  Num (val (heightPerColumn st ! i) + val (heightForContent (items ! k) columnWidth)))))"

text \<open>The invariant of the column loop, after the items \<open>seen_items\<close>: the ids seen are
  theirs, every column is a subsequence of them, no id is placed twice, and an item placed
  is the first one fetched with its id.\<close>

definition layout_inv :: "KlipyContent list \<Rightarrow> layout_state \<Rightarrow> bool" where
  "layout_inv seen_items st =
     (length (columns st) = length (heightPerColumn st) \<and>
      seenContent st = content_id ` set seen_items \<and>
      (\<forall>c\<in>set (columns st). subseq c seen_items) \<and>
      distinct (map content_id (concat (columns st))) \<and>
      (\<forall>x\<in>set (concat (columns st)).
          find (\<lambda>y. content_id y = content_id x) seen_items = Some x))"

section \<open>Sample data\<close>

definition sample_file :: "number \<Rightarrow> number \<Rightarrow> KlipyFile" where
  "sample_file w h = \<lparr>url = [], width = w, height = h, byte_size = Num 0\<rparr>"

definition sample_content :: "int \<Rightarrow> number \<Rightarrow> number \<Rightarrow> KlipyContent" where
  "sample_content i w h =
     (let v = \<lparr>gif = sample_file w h, webp = sample_file w h\<rparr>
      in \<lparr>content_id = i, slug = [], title = [], blur_preview = [],
          files = \<lparr>hd_tier = v, md_tier = v, sm_tier = v, xs_tier = v\<rparr>,
          tags = [], content_type = ''gif''\<rparr>)"

definition sample_page :: "KlipyContent list \<Rightarrow> int \<Rightarrow> bool \<Rightarrow> page" where
  "sample_page items n nxt = \<lparr>results = items, current_page = n, per_page = 20, has_next = nxt\<rparr>"

text \<open>A server with two pages: the first announces a next page, the second does not.\<close>

definition sample_server :: "int \<Rightarrow> page" where
  "sample_server k = (if k = 1 then sample_page [] 1 True else sample_page [] 2 False)"

section \<open>Facts about the number operations\<close>

text \<open>The rounding.\<close>

lemma pow2_powr: "pow2 e = 2 powr (real_of_int e)"
  by (auto simp: pow2_def powr_realpow [symmetric] powr_minus_divide)

lemma pow2_pos [simp]: "0 < pow2 e"
  by (simp add: pow2_powr)

lemma pow2_neq_0 [simp]: "pow2 e \<noteq> 0"
  using pow2_pos [of e] by linarith

lemma pow2_add: "pow2 (a + b) = pow2 a * pow2 b"
  by (simp add: pow2_powr powr_add)

lemma pow2_mono: "a \<le> b \<Longrightarrow> pow2 a \<le> pow2 b"
  by (simp add: pow2_powr)

lemma pow2_strict_mono: "a < b \<Longrightarrow> pow2 a < pow2 b"
  by (simp add: pow2_powr)

lemma pow2_nat: "0 \<le> e \<Longrightarrow> pow2 e = 2 ^ nat e"
  by (simp add: pow2_def)

lemma round_half_even_int [simp]: "round_half_even (of_int k) = k"
  by (simp add: round_half_even_def)

lemma double_exponent_normal:
  assumes "pow2 e \<le> a" "a < pow2 (e + 1)" "- 1022 \<le> e"
  shows "double_exponent a = e"
proof -
  let ?m = "\<lfloor>a * 2 ^ 1074\<rfloor>"
  have p: "(2::real) ^ 1074 = pow2 1074" by (simp add: pow2_def)
  have lo: "pow2 (e + 1074) \<le> a * 2 ^ 1074"
    unfolding p pow2_add using assms(1) by simp
  have "a * pow2 1074 < pow2 (e + 1) * pow2 1074"
    using assms(2) by simp
  also have "\<dots> = pow2 (e + 1075)"
    using pow2_add [of "e + 1" 1074] by (simp add: add.commute)
  finally have hi: "a * 2 ^ 1074 < pow2 (e + 1075)" unfolding p .
  have e1: "0 \<le> e + 1074" "0 \<le> e + 1075" using assms(3) by simp_all
  have lo': "2 ^ nat (e + 1074) \<le> ?m"
  proof -
    have "real_of_int (2 ^ nat (e + 1074)) \<le> a * 2 ^ 1074"
      using lo pow2_nat [OF e1(1)] by simp
    then show ?thesis by (simp add: le_floor_iff)
  qed
  have hi': "?m < 2 ^ nat (e + 1075)"
  proof -
    have "a * 2 ^ 1074 < real_of_int (2 ^ nat (e + 1075))"
      using hi pow2_nat [OF e1(2)] by simp
    then show ?thesis by (simp add: floor_less_iff)
  qed
  have "bitlen ?m \<le> e + 1075" using hi' e1 by (simp add: bitlen_le_iff_power)
  moreover have "e + 1075 \<le> bitlen ?m"
  proof -
    have "nat (e + 1075) - 1 = nat (e + 1074)" using e1 by simp
    then show ?thesis using lo' by (simp add: bitlen_ge_iff_power)
  qed
  ultimately have "bitlen ?m = e + 1075" by simp
  then show ?thesis using assms(3) by (simp add: double_exponent_def)
qed

lemma double_exponent_subnormal:
  assumes "0 \<le> a" "a < pow2 (- 1022)"
  shows "double_exponent a = - 1022"
proof -
  let ?m = "\<lfloor>a * 2 ^ 1074\<rfloor>"
  have p: "(2::real) ^ 1074 = pow2 1074" by (simp add: pow2_def)
  have "a * pow2 1074 < pow2 (- 1022) * pow2 1074" using assms(2) by simp
  also have "\<dots> = pow2 52" using pow2_add [of "- 1022" 1074] by simp
  finally have "a * 2 ^ 1074 < real_of_int (2 ^ 52)" unfolding p by (simp add: pow2_def)
  then have "?m < 2 ^ 52" by (simp add: floor_less_iff)
  then have "bitlen ?m \<le> 52" by (simp add: bitlen_le_iff_power)
  then show ?thesis by (simp add: double_exponent_def)
qed

text \<open>The rounding in a binade given by its exponent.\<close>

lemma round_double_normal:
  assumes "x \<noteq> 0" "pow2 e \<le> \<bar>x\<bar>" "\<bar>x\<bar> < pow2 (e + 1)" "- 1022 \<le> e"
  shows "round_double x =
     (let r = of_int (round_half_even (\<bar>x\<bar> / pow2 (e - 52))) * pow2 (e - 52)
      in if pow2 1024 \<le> r then (if x < 0 then NegInf else PosInf)
         else if r = 0 then (if x < 0 then NegZero else Num 0)
         else Num (if x < 0 then - r else r))"
proof -
  have de: "double_exponent \<bar>x\<bar> = e" using assms(2-4) by (rule double_exponent_normal)
  show ?thesis by (simp only: round_double_def Let_def de assms(1) if_False)
qed

text \<open>A number with 53 significant bits in the range of the exponents is not changed.\<close>

lemma round_double_exact:
  assumes x: "x = of_int k * pow2 (e - 52)"
    and k: "2 ^ 52 \<le> \<bar>k\<bar>" "\<bar>k\<bar> < 2 ^ 53"
    and e: "- 1022 \<le> e" "e \<le> 1023"
  shows "round_double x = Num x"
proof -
  let ?u = "pow2 (e - 52)"
  have "\<bar>?u\<bar> = ?u" using pow2_pos [of "e - 52"] by linarith
  then have ax: "\<bar>x\<bar> = of_int \<bar>k\<bar> * ?u" unfolding x by (simp add: abs_mult)
  have k0: "k \<noteq> 0" using k(1) by auto
  then have x0: "x \<noteq> 0" unfolding x by simp
  have u52: "pow2 52 * ?u = pow2 e" using pow2_add [of 52 "e - 52"] by simp
  have u53: "pow2 53 * ?u = pow2 (e + 1)"
    using pow2_add [of 53 "e - 52"] by (simp add: add.commute)
  have p52: "pow2 52 = real_of_int (2 ^ 52)" and p53: "pow2 53 = real_of_int (2 ^ 53)"
    by (simp_all add: pow2_def)
  have u0: "0 \<le> ?u" using pow2_pos [of "e - 52"] by linarith
  have "pow2 52 \<le> real_of_int \<bar>k\<bar>" unfolding p52 using k(1) by linarith
  then have "pow2 52 * ?u \<le> \<bar>x\<bar>" unfolding ax using u0 by (rule mult_right_mono)
  then have lo: "pow2 e \<le> \<bar>x\<bar>" unfolding u52 .
  have "real_of_int \<bar>k\<bar> < pow2 53" unfolding p53 using k(2) by linarith
  then have "\<bar>x\<bar> < pow2 53 * ?u" unfolding ax using pow2_pos [of "e - 52"]
    by (rule mult_strict_right_mono)
  then have hi: "\<bar>x\<bar> < pow2 (e + 1)" unfolding u53 .
  have q: "\<bar>x\<bar> / ?u = of_int \<bar>k\<bar>" unfolding ax by simp
  have "real_of_int (round_half_even (\<bar>x\<bar> / ?u)) = real_of_int \<bar>k\<bar>"
    by (simp only: q round_half_even_int)
  then have r: "of_int (round_half_even (\<bar>x\<bar> / ?u)) * ?u = \<bar>x\<bar>"
    using ax by simp
  have top: "\<bar>x\<bar> < pow2 1024" using hi pow2_mono [of "e + 1" 1024] e(2) by simp
  have "\<bar>x\<bar> \<noteq> 0" using x0 by simp
  then show ?thesis
    unfolding round_double_normal [OF x0 lo hi e(1)] Let_def r using top by auto
qed

text \<open>The values of the examples: all but the last three are doubles and are not changed.\<close>

lemma round_double_1: "round_double 1 = Num 1"
  by (rule round_double_exact [where k = "4503599627370496" and e = "0"]) (simp_all add: pow2_def)

lemma round_double_2: "round_double 2 = Num 2"
  by (rule round_double_exact [where k = "4503599627370496" and e = "1"]) (simp_all add: pow2_def)

lemma round_double_3: "round_double 3 = Num 3"
  by (rule round_double_exact [where k = "6755399441055744" and e = "1"]) (simp_all add: pow2_def)

lemma round_double_1_2: "round_double (1 / 2) = Num (1 / 2)"
  by (rule round_double_exact [where k = "4503599627370496" and e = "-1"]) (simp_all add: pow2_def)

lemma round_double_60: "round_double 60 = Num 60"
  by (rule round_double_exact [where k = "8444249301319680" and e = "5"]) (simp_all add: pow2_def)

lemma round_double_114: "round_double 114 = Num 114"
  by (rule round_double_exact [where k = "8022036836253696" and e = "6"]) (simp_all add: pow2_def)

lemma round_double_120: "round_double 120 = Num 120"
  by (rule round_double_exact [where k = "8444249301319680" and e = "6"]) (simp_all add: pow2_def)

lemma round_double_131: "round_double 131 = Num 131"
  by (rule round_double_exact [where k = "4609152743636992" and e = "7"]) (simp_all add: pow2_def)

lemma round_double_131_2: "round_double (131 / 2) = Num (131 / 2)"
  by (rule round_double_exact [where k = "4609152743636992" and e = "6"]) (simp_all add: pow2_def)

lemma round_double_236: "round_double 236 = Num 236"
  by (rule round_double_exact [where k = "8303511812964352" and e = "7"]) (simp_all add: pow2_def)

lemma round_double_262: "round_double 262 = Num 262"
  by (rule round_double_exact [where k = "4609152743636992" and e = "8"]) (simp_all add: pow2_def)

lemma round_double_273_2: "round_double (273 / 2) = Num (273 / 2)"
  by (rule round_double_exact [where k = "4802666790125568" and e = "7"]) (simp_all add: pow2_def)

lemma round_double_655_2: "round_double (655 / 2) = Num (655 / 2)"
  by (rule round_double_exact [where k = "5761440929546240" and e = "8"]) (simp_all add: pow2_def)

lemma round_double_131_3: "round_double (131 / 3) = Num (6145536991515989 / 140737488355328)"
  using round_double_normal [of "131 / 3" 5] by (simp add: pow2_def round_half_even_def Let_def)

lemma round_double_h: "round_double (6145536991515989 / 140737488355328) = Num (6145536991515989 / 140737488355328)"
  by (rule round_double_exact [where k = "6145536991515989" and e = "5"]) (simp_all add: pow2_def)

lemma round_double_2h: "round_double (6145536991515989 / 70368744177664) = Num (6145536991515989 / 70368744177664)"
  by (rule round_double_exact [where k = "6145536991515989" and e = "6"]) (simp_all add: pow2_def)

lemma round_double_3h: "round_double (18436610974547967 / 140737488355328) = Num 131"
  using round_double_normal [of "18436610974547967 / 140737488355328" 7] by (simp add: pow2_def round_half_even_def Let_def)

lemmas round_simps = round_double_1 round_double_2 round_double_3 round_double_1_2 round_double_60 round_double_114 round_double_120 round_double_131 round_double_131_2 round_double_236 round_double_262 round_double_273_2 round_double_655_2 round_double_131_3 round_double_h round_double_2h round_double_3h

lemma indexOf_range: "indexOf xs v = - 1 \<or> (0 \<le> indexOf xs v \<and> nat (indexOf xs v) < length xs)"
  by (induction xs) (auto simp: Let_def)

lemma indexOf_none: "indexOf xs v = - 1 \<longleftrightarrow> (\<forall>x\<in>set xs. \<not> strict_eq x v)"
proof (induction xs)
  case Nil
  show ?case by simp
next
  case (Cons a xs)
  have "indexOf xs v = - 1 \<or> 0 \<le> indexOf xs v" using indexOf_range [of xs v] by blast
  with Cons show ?case by (auto simp: Let_def)
qed

lemma indexOf_found:
  "indexOf xs v \<noteq> - 1 \<Longrightarrow>
     strict_eq (xs ! nat (indexOf xs v)) v \<and> (\<forall>j < nat (indexOf xs v). \<not> strict_eq (xs ! j) v)"
proof (induction xs)
  case Nil
  then show ?case by simp
next
  case (Cons a xs)
  show ?case
  proof (cases "strict_eq a v")
    case True
    then show ?thesis by simp
  next
    case False
    with Cons.prems have ne: "indexOf xs v \<noteq> - 1" by (auto simp: Let_def split: if_splits)
    then have ge: "0 \<le> indexOf xs v" using indexOf_range [of xs v] by blast
    have eq: "indexOf (a # xs) v = indexOf xs v + 1" using False ne by (simp add: Let_def)
    have n: "nat (indexOf xs v + 1) = Suc (nat (indexOf xs v))" using ge by simp
    from Cons.IH [OF ne] False show ?thesis
      unfolding eq n by (auto simp: less_Suc_eq_0_disj)
  qed
qed

lemma min_step_NaN [simp]: "min_step NaN x = NaN" "min_step a NaN = NaN"
  by (simp_all add: min_step_def)

lemma foldl_min_step_NaN: "foldl min_step NaN xs = NaN"
  by (induction xs) simp_all

lemma math_min_NaN: "NaN \<in> set xs \<Longrightarrow> math_min xs = NaN"
proof -
  have "NaN \<in> set xs \<Longrightarrow> foldl min_step a xs = NaN" for a
    by (induction xs arbitrary: a) (auto simp: foldl_min_step_NaN)
  then show "NaN \<in> set xs \<Longrightarrow> math_min xs = NaN" by (simp add: math_min_def)
qed

lemma js_lt_irrefl [simp]: "\<not> js_lt x x"
  by (simp add: js_lt_def)

lemma js_lt_trans: "js_lt x y \<Longrightarrow> js_lt y z \<Longrightarrow> js_lt x z"
  by (auto simp: js_lt_def)

lemma js_lt_total: "x \<noteq> NaN \<Longrightarrow> y \<noteq> NaN \<Longrightarrow> js_lt x y \<or> js_lt y x \<or> strict_eq x y"
  by (cases x; cases y) (auto simp: js_lt_def strict_eq_def)

lemma strict_eq_not_lt: "strict_eq x y \<Longrightarrow> \<not> js_lt x y \<and> \<not> js_lt y x"
  by (cases x; cases y) (auto simp: js_lt_def strict_eq_def)

lemma not_lt_trans: "x \<noteq> NaN \<Longrightarrow> y \<noteq> NaN \<Longrightarrow> z \<noteq> NaN \<Longrightarrow> \<not> js_lt y x \<Longrightarrow> \<not> js_lt z y \<Longrightarrow> \<not> js_lt z x"
  by (cases x; cases y; cases z) (auto simp: js_lt_def)

lemma foldl_min_step_spec:
  "a \<noteq> NaN \<Longrightarrow> NaN \<notin> set xs \<Longrightarrow>
     foldl min_step a xs \<noteq> NaN \<and>
     (foldl min_step a xs = a \<or> foldl min_step a xs \<in> set xs) \<and>
     \<not> js_lt a (foldl min_step a xs) \<and>
     (\<forall>x\<in>set xs. \<not> js_lt x (foldl min_step a xs))"
proof (induction xs arbitrary: a)
  case Nil
  then show ?case by simp
next
  case (Cons x xs)
  let ?b = "min_step a x"
  have xn: "x \<noteq> NaN" and xs: "NaN \<notin> set xs" using Cons.prems by auto
  have b: "?b \<noteq> NaN" "?b = a \<or> ?b = x" "\<not> js_lt a ?b" "\<not> js_lt x ?b"
    using Cons.prems(1) xn by (auto simp: min_step_def js_lt_def)
  note ih = Cons.IH [OF b(1) xs]
  let ?m = "foldl min_step ?b xs"
  have m: "?m \<noteq> NaN" using ih by blast
  have 1: "\<not> js_lt a ?m" using not_lt_trans [OF m b(1) Cons.prems(1)] ih b(3) by blast
  have 2: "\<not> js_lt x ?m" using not_lt_trans [OF m b(1) xn] ih b(4) by blast
  show ?case using ih b(2) 1 2 by auto
qed

lemma math_min_spec:
  assumes "NaN \<notin> set xs" "xs \<noteq> []"
  shows "math_min xs \<noteq> NaN" "\<exists>x\<in>set xs. strict_eq x (math_min xs)"
    "\<forall>x\<in>set xs. \<not> js_lt x (math_min xs)"
proof -
  note s = foldl_min_step_spec [of PosInf xs, OF _ assms(1), folded math_min_def]
  show "math_min xs \<noteq> NaN" using s by simp
  show "\<forall>x\<in>set xs. \<not> js_lt x (math_min xs)" using s by simp
  show "\<exists>x\<in>set xs. strict_eq x (math_min xs)"
  proof (cases "math_min xs \<in> set xs")
    case True
    then show ?thesis using assms(1) by (auto simp: strict_eq_def intro!: bexI [of _ "math_min xs"])
  next
    case False
    then have e: "math_min xs = PosInf" using s by simp
    obtain x where x: "x \<in> set xs" using assms(2) by (cases xs) auto
    then have "\<not> js_lt x PosInf" "x \<noteq> NaN" using s e assms(1) by auto
    then have "x = PosInf" by (cases x) (auto simp: js_lt_def)
    with x e False show ?thesis by simp
  qed
qed

lemma strict_eq_lt_cong: "strict_eq a m \<Longrightarrow> js_lt m b \<Longrightarrow> js_lt a b"
  by (cases a; cases m; cases b) (auto simp: js_lt_def strict_eq_def)

lemma strict_eq_not_lt_cong: "strict_eq a m \<Longrightarrow> \<not> js_lt b m \<Longrightarrow> \<not> js_lt b a"
  by (cases a; cases m; cases b) (auto simp: js_lt_def strict_eq_def)

lemma min_index_spec:
  assumes "NaN \<notin> set hs" "hs \<noteq> []"
  shows "indexOf hs (math_min hs) \<noteq> - 1" "leftmost_min hs (nat (indexOf hs (math_min hs)))"
proof -
  let ?m = "math_min hs" and ?k = "indexOf hs (math_min hs)"
  note m = math_min_spec [OF assms]
  show ne: "?k \<noteq> - 1" using m(2) by (simp add: indexOf_none)
  then have r: "nat ?k < length hs" using indexOf_range [of hs ?m] by blast
  note f = indexOf_found [OF ne]
  have eq: "strict_eq (hs ! nat ?k) ?m" using f by blast
  have 1: "\<not> js_lt (hs ! j) (hs ! nat ?k)" if "j < length hs" for j
    using strict_eq_not_lt_cong [OF eq] m(3) that by simp
  have 2: "js_lt (hs ! nat ?k) (hs ! j)" if "j < nat ?k" for j
  proof -
    have j: "j < length hs" using that r by simp
    then have n: "hs ! j \<noteq> NaN" using assms(1) by (metis nth_mem)
    have "\<not> strict_eq (hs ! j) ?m" using f that by blast
    moreover have "\<not> js_lt (hs ! j) ?m" using m(3) j by simp
    ultimately have "js_lt ?m (hs ! j)" using js_lt_total [OF n m(1)] by blast
    then show ?thesis using strict_eq_lt_cong [OF eq] by blast
  qed
  show "leftmost_min hs (nat ?k)" using r 1 2 by (simp add: leftmost_min_def)
qed

lemma leftmost_min_unique: "leftmost_min hs i \<Longrightarrow> leftmost_min hs j \<Longrightarrow> i = j"
  unfolding leftmost_min_def by (metis linorder_neqE_nat)

lemma place_seen: "content_id c \<in> seenContent st \<Longrightarrow> place cw st c = Inr st"
  by (simp add: place_def)

lemma place_skip:
  assumes "content_id c \<notin> seenContent st" "NaN \<in> set (heightPerColumn st) \<or> heightPerColumn st = []"
  shows "place cw st c = Inr (st\<lparr>seenContent := insert (content_id c) (seenContent st)\<rparr>)"
proof -
  have "indexOf (heightPerColumn st) (math_min (heightPerColumn st)) = - 1"
    using assms(2)
  proof
    assume "NaN \<in> set (heightPerColumn st)"
    then have "math_min (heightPerColumn st) = NaN" by (rule math_min_NaN)
    then show ?thesis by (simp add: indexOf_none strict_eq_def)
  next
    assume "heightPerColumn st = []"
    then show ?thesis by simp
  qed
  then show ?thesis using assms(1) by (simp add: place_def Let_def)
qed

lemma place_put:
  assumes "content_id c \<notin> seenContent st" "NaN \<notin> set (heightPerColumn st)" "heightPerColumn st \<noteq> []"
    and "length (columns st) = length (heightPerColumn st)"
    and "i = nat (indexOf (heightPerColumn st) (math_min (heightPerColumn st)))"
  shows "place cw st c =
     Inr \<lparr>seenContent = insert (content_id c) (seenContent st),
          columns = (columns st)[i := columns st ! i @ [c]],
          heightPerColumn = (heightPerColumn st)[i := js_add (heightPerColumn st ! i) (heightForContent c cw)]\<rparr>"
proof -
  let ?k = "indexOf (heightPerColumn st) (math_min (heightPerColumn st))"
  note s = min_index_spec [OF assms(2,3)]
  have k: "?k \<noteq> - 1" "0 \<le> ?k" "nat ?k < length (heightPerColumn st)"
    using s(1) indexOf_range [of "heightPerColumn st" "math_min (heightPerColumn st)"] by auto
  show ?thesis using assms(1,4) k unfolding assms(5)
    by (simp add: place_def Let_def)
qed

lemma place_total: "\<exists>st'. place cw st c = Inr st'"
proof -
  let ?k = "indexOf (heightPerColumn st) (math_min (heightPerColumn st))"
  have "?k = - 1 \<or> (0 \<le> ?k \<and> nat ?k < length (heightPerColumn st))" by (rule indexOf_range)
  then show ?thesis by (auto simp: place_def Let_def)
qed

section \<open>Facts about the column loop\<close>

lemma place_results_append:
  "place_results cw st (xs @ ys) =
     (case place_results cw st xs of Inl e \<Rightarrow> Inl e | Inr st' \<Rightarrow> place_results cw st' ys)"
  by (induction xs arbitrary: st) (auto split: sum.splits)

lemma place_pages_flatten:
  "place_pages cw st ps = place_results cw st (concat (map results ps))"
  by (induction ps arbitrary: st) (auto simp: place_results_append split: sum.splits)

lemma place_results_total: "\<exists>st'. place_results cw st xs = Inr st'"
proof (induction xs arbitrary: st)
  case Nil
  show ?case by simp
next
  case (Cons x xs)
  obtain st1 where "place cw st x = Inr st1" using place_total by blast
  then show ?case using Cons [of st1] by simp
qed

lemma concat_update_snoc:
  assumes "i < length cols"
  shows "\<exists>A B. concat cols = A @ B \<and> concat (cols[i := cols ! i @ [x]]) = A @ x # B"
proof -
  have 1: "cols = take i cols @ cols ! i # drop (Suc i) cols"
    using assms by (rule id_take_nth_drop)
  have 2: "cols[i := cols ! i @ [x]] = take i cols @ (cols ! i @ [x]) # drop (Suc i) cols"
    using assms by (rule upd_conv_take_nth_drop)
  have "concat cols = (concat (take i cols) @ cols ! i) @ concat (drop (Suc i) cols)"
    by (subst 1) simp
  moreover have "concat (cols[i := cols ! i @ [x]])
      = (concat (take i cols) @ cols ! i) @ x # concat (drop (Suc i) cols)"
    by (subst 2) simp
  ultimately show ?thesis by blast
qed

text \<open>What one step does, in three cases.\<close>

lemma place_cases:
  assumes "length (columns st) = length (heightPerColumn st)"
  obtains (seen) "content_id c \<in> seenContent st" "place cw st c = Inr st"
  | (skip) "content_id c \<notin> seenContent st"
      "NaN \<in> set (heightPerColumn st) \<or> heightPerColumn st = []"
      "place cw st c = Inr (st\<lparr>seenContent := insert (content_id c) (seenContent st)\<rparr>)"
  | (put) i where "content_id c \<notin> seenContent st" "NaN \<notin> set (heightPerColumn st)"
      "leftmost_min (heightPerColumn st) i"
      "place cw st c =
         Inr \<lparr>seenContent = insert (content_id c) (seenContent st),
              columns = (columns st)[i := columns st ! i @ [c]],
              heightPerColumn = (heightPerColumn st)[i := js_add (heightPerColumn st ! i) (heightForContent c cw)]\<rparr>"
proof (cases "content_id c \<in> seenContent st")
  case True
  then show ?thesis using seen place_seen by blast
next
  case False
  show ?thesis
  proof (cases "NaN \<in> set (heightPerColumn st) \<or> heightPerColumn st = []")
    case True
    then show ?thesis using skip False place_skip by blast
  next
    case nn: False
    then have a: "NaN \<notin> set (heightPerColumn st)" "heightPerColumn st \<noteq> []" by auto
    show ?thesis
      using put [OF False a(1) min_index_spec(2) [OF a] place_put [OF False a assms refl]] .
  qed
qed

lemma find_snoc:
  "find P (xs @ [x]) = (case find P xs of Some y \<Rightarrow> Some y | None \<Rightarrow> if P x then Some x else None)"
  by (induction xs) auto

lemma find_None_ids: "content_id c \<notin> content_id ` set xs \<Longrightarrow> find (\<lambda>y. content_id y = content_id c) xs = None"
  by (force simp: find_None_iff)

lemma layout_inv_place:
  assumes inv: "layout_inv ys st" and p: "place cw st c = Inr st'"
  shows "layout_inv (ys @ [c]) st'"
proof -
  from inv have len: "length (columns st) = length (heightPerColumn st)"
    and seen: "seenContent st = content_id ` set ys"
    and sub: "\<forall>col\<in>set (columns st). subseq col ys"
    and dist: "distinct (map content_id (concat (columns st)))"
    and first: "\<forall>x\<in>set (concat (columns st)). find (\<lambda>y. content_id y = content_id x) ys = Some x"
    by (simp_all add: layout_inv_def)
  have sub': "\<forall>col\<in>set (columns st). subseq col (ys @ [c])"
    using sub by (simp add: subseq_rev_drop_many)
  have first': "\<forall>x\<in>set (concat (columns st)). find (\<lambda>y. content_id y = content_id x) (ys @ [c]) = Some x"
    using first by (simp add: find_snoc)
  have ids: "content_id ` set (concat (columns st)) \<subseteq> content_id ` set ys"
  proof
    fix k assume "k \<in> content_id ` set (concat (columns st))"
    then obtain x where x: "x \<in> set (concat (columns st))" "k = content_id x" by blast
    then have "find (\<lambda>y. content_id y = content_id x) ys = Some x" using first by blast
    then have "x \<in> set ys" by (auto simp: find_Some_iff)
    then show "k \<in> content_id ` set ys" using x by blast
  qed
  show ?thesis
  proof (cases rule: place_cases [OF len, of c cw, case_names seen skip put])
    case seen
    then have "st' = st" using p by simp
    then show ?thesis using len seen(1) \<open>seenContent st = _\<close> sub' dist first'
      by (auto simp: layout_inv_def)
  next
    case skip
    then have "st' = st\<lparr>seenContent := insert (content_id c) (seenContent st)\<rparr>" using p by simp
    then show ?thesis using len seen sub' dist first'
      by (auto simp: layout_inv_def)
  next
    case (put i)
    let ?cols = "(columns st)[i := columns st ! i @ [c]]"
    have st': "st' = \<lparr>seenContent = insert (content_id c) (seenContent st), columns = ?cols,
        heightPerColumn = (heightPerColumn st)[i := js_add (heightPerColumn st ! i) (heightForContent c cw)]\<rparr>"
      using put(4) p by simp
    have i: "i < length (columns st)" using put(3) len by (simp add: leftmost_min_def)
    have fresh: "content_id c \<notin> content_id ` set ys" using put(1) seen by simp
    obtain A B where AB: "concat (columns st) = A @ B" "concat ?cols = A @ c # B"
      using concat_update_snoc [OF i] by blast
    have d: "distinct (map content_id (concat ?cols))"
      using dist ids fresh unfolding AB by auto
    have s: "\<forall>col\<in>set ?cols. subseq col (ys @ [c])"
    proof
      fix col assume "col \<in> set ?cols"
      then have "col = columns st ! i @ [c] \<or> col \<in> set (columns st)"
        using set_update_subset_insert [of "columns st" i] by auto
      moreover have "subseq (columns st ! i) ys" using sub i by simp
      ultimately show "subseq col (ys @ [c])" using sub' by (auto simp: subseq_append)
    qed
    have f: "\<forall>x\<in>set (concat ?cols). find (\<lambda>y. content_id y = content_id x) (ys @ [c]) = Some x"
      using first' find_None_ids [OF fresh] unfolding AB by (auto simp: find_snoc)
    show ?thesis using len seen d s f unfolding st' by (simp add: layout_inv_def)
  qed
qed

lemma layout_inv_results:
  "layout_inv ys st \<Longrightarrow> place_results cw st xs = Inr st' \<Longrightarrow> layout_inv (ys @ xs) st'"
proof (induction xs arbitrary: ys st)
  case Nil
  then show ?case by simp
next
  case (Cons x xs)
  from Cons.prems(2) obtain st1 where 1: "place cw st x = Inr st1" and 2: "place_results cw st1 xs = Inr st'"
    by (auto split: sum.splits)
  have "layout_inv ((ys @ [x]) @ xs) st'"
    using Cons.IH [OF layout_inv_place [OF Cons.prems(1) 1] 2] .
  then show ?case by simp
qed

lemma layout_inv_initial: "layout_inv [] (initial_layout n)"
  by (simp add: layout_inv_def initial_layout_def)

section \<open>The geometry\<close>

lemma columnCount_ge_1: "1 \<le> columnCount_of mode w"
  by (simp add: columnCount_of_def Let_def)

lemma columnCount_div:
  "columnCount_of mode w = max 1 ((w - sidePadding + columnGap) div (minColumnWidth mode + columnGap))"
  unfolding columnCount_of_def Let_def by (simp only: floor_divide_of_int_eq)

lemma js_div_Num_pos: "0 < b \<Longrightarrow> js_div (Num a) (Num b) = round_double (a / b)"
  by (auto simp: js_div_def round_double_def)

lemma columnWidth_Num:
  "columnWidth_of mode w =
     round_double (real_of_int (w - sidePadding - (columnCount_of mode w - 1) * columnGap)
          / real_of_int (columnCount_of mode w))"
proof -
  have "0 < real_of_int (columnCount_of mode w)" using columnCount_ge_1 [of mode w] by simp
  then show ?thesis by (simp add: columnWidth_of_def Let_def js_div_Num_pos)
qed

lemma place_length:
  "place cw st c = Inr st' \<Longrightarrow>
     length (columns st') = length (columns st) \<and> length (heightPerColumn st') = length (heightPerColumn st)"
  by (auto simp: place_def Let_def split: if_splits)

lemma place_results_length:
  "place_results cw st xs = Inr st' \<Longrightarrow>
     length (columns st') = length (columns st) \<and> length (heightPerColumn st') = length (heightPerColumn st)"
proof (induction xs arbitrary: st)
  case Nil
  then show ?case by simp
next
  case (Cons x xs)
  then obtain st1 where 1: "place cw st x = Inr st1" and 2: "place_results cw st1 xs = Inr st'"
    by (auto split: sum.splits)
  show ?case using Cons.IH [OF 2] place_length [OF 1] by simp
qed

text \<open>The memoised pair, through the loop over the flattened results.\<close>

lemma contentColumns_Some:
  "\<exists>st. place_results (columnWidth_of mode w) (initial_layout (nat (columnCount_of mode w)))
            (concat (map results (pages d))) = Inr st \<and>
        contentColumns mode (Some d) w = Inr (columns st, columnWidth_of mode w)"
proof -
  obtain st where st: "place_results (columnWidth_of mode w) (initial_layout (nat (columnCount_of mode w)))
            (concat (map results (pages d))) = Inr st"
    using place_results_total by blast
  then show ?thesis by (simp add: contentColumns_def Let_def place_pages_flatten)
qed

lemma contentColumns_None:
  "contentColumns mode None w = Inr (replicate (nat (columnCount_of mode w)) [], columnWidth_of mode w)"
  by (simp add: contentColumns_def Let_def initial_layout_def)

lemma contentColumns_length:
  "\<exists>cols. contentColumns mode dat w = Inr (cols, columnWidth_of mode w) \<and>
          int (length cols) = columnCount_of mode w"
proof (cases dat)
  case None
  then show ?thesis using columnCount_ge_1 [of mode w] by (simp add: contentColumns_None)
next
  case (Some d)
  obtain st where st: "place_results (columnWidth_of mode w) (initial_layout (nat (columnCount_of mode w)))
            (concat (map results (pages d))) = Inr st"
     and c: "contentColumns mode (Some d) w = Inr (columns st, columnWidth_of mode w)"
    using contentColumns_Some by blast
  have "length (columns st) = nat (columnCount_of mode w)"
    using place_results_length [OF st] by (simp add: initial_layout_def)
  then show ?thesis using Some c columnCount_ge_1 [of mode w] by simp
qed

section \<open>Facts used by the claims\<close>

lemma initial_layout_simps [simp]:
  "seenContent (initial_layout n) = {}"
  "columns (initial_layout n) = replicate n []"
  "heightPerColumn (initial_layout n) = replicate n (Num 0)"
  by (simp_all add: initial_layout_def)

lemma concat_replicate_Nil [simp]: "concat (replicate n []) = []"
  by (induction n) auto

text \<open>The loop from the empty layout.\<close>

lemma layout_run:
  assumes "place_results cw (initial_layout n) items = Inr st"
  shows "layout_inv items st" "length (columns st) = n" "length (heightPerColumn st) = n"
  using layout_inv_results [OF layout_inv_initial assms] place_results_length [OF assms]
  by simp_all

lemma sample_content_id [simp]: "content_id (sample_content i w h) = i"
  by (simp add: sample_content_def Let_def)

lemma sample_content_height [simp]:
  "heightForContent (sample_content i w h) cw = js_div cw (js_div w h)"
  by (simp add: sample_content_def sample_file_def heightForContent_def getContentDimensions_def Let_def)

lemma sample_page_results [simp]: "results (sample_page items n nxt) = items"
  by (simp add: sample_page_def)

lemma heightForContent_kind [simp]:
  "heightForContent (x\<lparr>content_type := k\<rparr>) cw = heightForContent x cw"
  by (simp add: heightForContent_def getContentDimensions_def)

lemmas geometry_simps = columnCount_of_def columnWidth_of_def sidePadding_def columnGap_def
  minColumnWidth_def

lemmas eval_simps = initial_layout_def place_def js_div_def js_add_def math_min_def min_step_def
  js_lt_def strict_eq_def Let_def round_simps

lemma place_results_snoc:
  "place_results cw st0 items = Inr st \<Longrightarrow> place_results cw st0 (items @ [x]) = place cw st x"
  by (simp add: place_results_append split: sum.splits)

lemma leftmost_min_nonempty: "NaN \<notin> set hs \<Longrightarrow> hs \<noteq> [] \<Longrightarrow> \<exists>i. leftmost_min hs i"
  using min_index_spec(2) by blast

lemma update_snoc_inj:
  assumes "i < length cols" "j < length cols"
    and "cols[i := cols ! i @ [x]] = cols[j := cols ! j @ [x]]"
  shows "i = j"
proof (rule ccontr)
  assume "i \<noteq> j"
  then have "cols[j := cols ! j @ [x]] ! i = cols ! i" by simp
  moreover have "cols[i := cols ! i @ [x]] ! i = cols ! i @ [x]" using assms(1) by simp
  ultimately show False using assms(3) by simp
qed

lemma find_Some_mem: "find P xs = Some y \<Longrightarrow> y \<in> set xs"
  by (induction xs) (auto split: if_splits)

text \<open>An id seen and not placed is never placed.\<close>

lemma unplaced_place:
  assumes len: "length (columns st) = length (heightPerColumn st)"
    and p: "place cw st c = Inr st'"
    and i: "i \<in> seenContent st" "i \<notin> content_id ` set (concat (columns st))"
  shows "i \<in> seenContent st' \<and> i \<notin> content_id ` set (concat (columns st'))"
proof (cases rule: place_cases [OF len, of c cw, case_names seen skip put])
  case seen
  then show ?thesis using p i by simp
next
  case skip
  then show ?thesis using p i by auto
next
  case (put k)
  have k: "k < length (columns st)" using put(3) len by (simp add: leftmost_min_def)
  obtain A B where AB: "concat (columns st) = A @ B"
      "concat ((columns st)[k := columns st ! k @ [c]]) = A @ c # B"
    using concat_update_snoc [OF k] by blast
  have "content_id c \<noteq> i" using put(1) i(1) by auto
  then have "i \<notin> content_id ` set (concat ((columns st)[k := columns st ! k @ [c]]))"
    using i(2) unfolding AB by auto
  then show ?thesis using put(4) p i(1) by auto
qed

lemma unplaced_results:
  "length (columns st) = length (heightPerColumn st) \<Longrightarrow> place_results cw st xs = Inr st' \<Longrightarrow>
     i \<in> seenContent st \<Longrightarrow> i \<notin> content_id ` set (concat (columns st)) \<Longrightarrow>
     i \<notin> content_id ` set (concat (columns st'))"
proof (induction xs arbitrary: st)
  case Nil
  then show ?case by simp
next
  case (Cons x xs)
  from Cons.prems(2) obtain st1 where 1: "place cw st x = Inr st1"
    and 2: "place_results cw st1 xs = Inr st'"
    by (auto split: sum.splits)
  have l: "length (columns st1) = length (heightPerColumn st1)"
    using place_length [OF 1] Cons.prems(1) by simp
  note u = unplaced_place [OF Cons.prems(1) 1 Cons.prems(3,4)]
  show ?case using Cons.IH [OF l 2] u by blast
qed

text \<open>An accumulated height that is \<open>NaN\<close> stays: nothing is placed any more.\<close>

lemma NaN_stays_place:
  assumes "NaN \<in> set (heightPerColumn st)" "place cw st c = Inr st'"
  shows "NaN \<in> set (heightPerColumn st')"
proof (cases "content_id c \<in> seenContent st")
  case True
  then show ?thesis using assms by (simp add: place_seen)
next
  case False
  then show ?thesis using assms place_skip [OF False, of cw] by auto
qed

lemma NaN_stays_results:
  "NaN \<in> set (heightPerColumn st) \<Longrightarrow> place_results cw st xs = Inr st' \<Longrightarrow>
     NaN \<in> set (heightPerColumn st')"
proof (induction xs arbitrary: st)
  case Nil
  then show ?case by simp
next
  case (Cons x xs)
  from Cons.prems(2) obtain st1 where 1: "place cw st x = Inr st1"
    and 2: "place_results cw st1 xs = Inr st'"
    by (auto split: sum.splits)
  show ?case using Cons.IH [OF NaN_stays_place [OF Cons.prems(1) 1] 2] .
qed

lemma arrives_at_NaN_snoc:
  "k < length xs \<Longrightarrow> arrives_at_NaN cw n (xs @ [x]) k = arrives_at_NaN cw n xs k"
  by (simp add: arrives_at_NaN_def nth_append)

text \<open>Every id is placed when no item with a fresh id arrives at a \<open>NaN\<close>.\<close>

lemma no_arrival_complete:
  assumes n: "0 < n"
  shows "(\<forall>k<length items. \<not> arrives_at_NaN cw n items k) \<Longrightarrow>
     place_results cw (initial_layout n) items = Inr st \<Longrightarrow>
     content_id ` set (concat (columns st)) = content_id ` set items"
proof (induction items arbitrary: st rule: rev_induct)
  case Nil
  then have "st = initial_layout n" by simp
  then show ?case by simp
next
  case (snoc x xs)
  obtain st1 where st1: "place_results cw (initial_layout n) xs = Inr st1"
    using place_results_total by blast
  have p: "place cw st1 x = Inr st"
    using snoc.prems(2) unfolding place_results_snoc [OF st1] .
  have "\<not> arrives_at_NaN cw n xs k" if "k < length xs" for k
    using snoc.prems(1) that arrives_at_NaN_snoc [OF that, of cw n x] by auto
  then have ih: "content_id ` set (concat (columns st1)) = content_id ` set xs"
    using snoc.IH st1 by blast
  note r = layout_run [OF st1]
  have len: "length (columns st1) = length (heightPerColumn st1)" using r by simp
  have seen_eq: "seenContent st1 = content_id ` set xs" using r(1) by (simp add: layout_inv_def)
  show ?case
  proof (cases rule: place_cases [OF len, of x cw, case_names seen skip put])
    case seen
    then show ?thesis using p ih seen_eq by auto
  next
    case skip
    have "NaN \<in> set (heightPerColumn st1)" using skip(2) r(3) n by auto
    then have "arrives_at_NaN cw n (xs @ [x]) (length xs)"
      using skip(1) seen_eq st1 by (simp add: arrives_at_NaN_def)
    then show ?thesis using snoc.prems(1) by auto
  next
    case (put i)
    have i: "i < length (columns st1)" using put(3) len by (simp add: leftmost_min_def)
    obtain A B where AB: "concat (columns st1) = A @ B"
        "concat ((columns st1)[i := columns st1 ! i @ [x]]) = A @ x # B"
      using concat_update_snoc [OF i] by blast
    have "content_id ` set (concat ((columns st1)[i := columns st1 ! i @ [x]])) =
        insert (content_id x) (content_id ` set xs)"
      using ih unfolding AB by auto
    then show ?thesis using put(4) p by auto
  qed
qed

text \<open>An item with a fresh id that arrives at a \<open>NaN\<close> is never placed.\<close>

lemma arrival_incomplete:
  assumes a: "arrives_at_NaN cw n items k"
    and run: "place_results cw (initial_layout n) items = Inr st"
  shows "content_id (items ! k) \<notin> content_id ` set (concat (columns st))"
proof -
  let ?x = "items ! k"
  have k: "k < length items" and fresh: "content_id ?x \<notin> content_id ` set (take k items)"
    using a by (simp_all add: arrives_at_NaN_def)
  obtain stk where stk: "place_results cw (initial_layout n) (take k items) = Inr stk"
    using place_results_total by blast
  have nan: "NaN \<in> set (heightPerColumn stk)" using a stk by (simp add: arrives_at_NaN_def)
  note r = layout_run [OF stk]
  have len: "length (columns stk) = length (heightPerColumn stk)" using r by simp
  have seen_eq: "seenContent stk = content_id ` set (take k items)"
    using r(1) by (simp add: layout_inv_def)
  have placed: "content_id ` set (concat (columns stk)) \<subseteq> content_id ` set (take k items)"
  proof
    fix j assume "j \<in> content_id ` set (concat (columns stk))"
    then obtain y where y: "y \<in> set (concat (columns stk))" "j = content_id y" by blast
    then have "find (\<lambda>z. content_id z = content_id y) (take k items) = Some y"
      using r(1) unfolding layout_inv_def by blast
    then have "y \<in> set (take k items)" by (rule find_Some_mem)
    then show "j \<in> content_id ` set (take k items)" using y by blast
  qed
  let ?st1 = "stk\<lparr>seenContent := insert (content_id ?x) (seenContent stk)\<rparr>"
  have p: "place cw stk ?x = Inr ?st1"
    using place_skip [of ?x stk cw] fresh seen_eq nan by simp
  have split: "items = take k items @ ?x # drop (Suc k) items"
    using k by (rule id_take_nth_drop)
  have "place_results cw (initial_layout n) items =
      place_results cw ?st1 (drop (Suc k) items)"
    by (subst split) (simp add: place_results_append stk p)
  then have rest: "place_results cw ?st1 (drop (Suc k) items) = Inr st" using run by simp
  have "content_id ?x \<notin> content_id ` set (concat (columns ?st1))"
    using placed fresh by auto
  then show ?thesis
    using unplaced_results [OF _ rest, of "content_id ?x"] len by simp
qed

text \<open>While the accumulated heights at the end hold no \<open>NaN\<close>, no item arrived at one.\<close>

lemma NaN_free_no_arrival:
  assumes run: "place_results cw (initial_layout n) items = Inr st"
    and free: "NaN \<notin> set (heightPerColumn st)"
  shows "\<not> arrives_at_NaN cw n items k"
proof
  assume a: "arrives_at_NaN cw n items k"
  obtain stk where stk: "place_results cw (initial_layout n) (take k items) = Inr stk"
    using place_results_total by blast
  have nan: "NaN \<in> set (heightPerColumn stk)" using a stk by (simp add: arrives_at_NaN_def)
  have "place_results cw (initial_layout n) (take k items @ drop k items) = Inr st"
    using run by simp
  then have "place_results cw stk (drop k items) = Inr st"
    unfolding place_results_append stk by simp
  then show False using NaN_stays_results [OF nan] free by blast
qed

lemma leftmost_min_zeros: "leftmost_min (replicate n (Num 0)) i \<Longrightarrow> i = 0"
proof (rule ccontr)
  assume l: "leftmost_min (replicate n (Num 0)) i" and "i \<noteq> 0"
  then have "0 < i" "i < n" by (simp_all add: leftmost_min_def)
  then have "js_lt (replicate n (Num 0) ! i) (replicate n (Num 0) ! 0)"
    using l unfolding leftmost_min_def by blast
  then show False using \<open>0 < i\<close> \<open>i < n\<close> by simp
qed

lemma place_first:
  assumes "0 < n" "place cw (initial_layout n) x = Inr st"
  shows "columns st ! 0 = [x]"
proof -
  have len: "length (columns (initial_layout n)) = length (heightPerColumn (initial_layout n))"
    by simp
  show ?thesis
  proof (cases rule: place_cases [OF len, of x cw, case_names seen skip put])
  case seen
  then show ?thesis by simp
next
  case skip
  then show ?thesis using assms(1) by auto
next
  case (put i)
  then have "i = 0" using leftmost_min_zeros [of n i] by simp
  then show ?thesis using put(4) assms by auto
  qed
qed

lemma place_keeps:
  assumes "length (columns st) = length (heightPerColumn st)" "place cw st c = Inr st'"
    and "columns st ! j \<noteq> []"
  shows "columns st' ! j \<noteq> []"
proof (cases rule: place_cases [OF assms(1), of c cw, case_names seen skip put])
  case seen
  then show ?thesis using assms by simp
next
  case skip
  then show ?thesis using assms by auto
next
  case (put i)
  have i: "i < length (columns st)" using put(3) assms(1) by (simp add: leftmost_min_def)
  have "((columns st)[i := columns st ! i @ [c]]) ! j \<noteq> []"
    using assms(3) i by (cases "i = j") auto
  then show ?thesis using put(4) assms(2) by auto
qed

lemma place_results_keeps:
  "length (columns st) = length (heightPerColumn st) \<Longrightarrow> place_results cw st xs = Inr st' \<Longrightarrow>
     columns st ! j \<noteq> [] \<Longrightarrow> columns st' ! j \<noteq> []"
proof (induction xs arbitrary: st)
  case Nil
  then show ?case by simp
next
  case (Cons x xs)
  from Cons.prems(2) obtain st1 where 1: "place cw st x = Inr st1"
    and 2: "place_results cw st1 xs = Inr st'"
    by (auto split: sum.splits)
  have l: "length (columns st1) = length (heightPerColumn st1)"
    using place_length [OF 1] Cons.prems(1) by simp
  show ?case using Cons.IH [OF l 2 place_keeps [OF Cons.prems(1) 1 Cons.prems(3)]] .
qed

lemma first_column_nonempty:
  assumes "0 < n" "items \<noteq> []" "place_results cw (initial_layout n) items = Inr st"
  shows "columns st ! 0 \<noteq> []"
proof -
  obtain x xs where items: "items = x # xs" using assms(2) by (cases items) auto
  from assms(3) obtain st1 where 1: "place cw (initial_layout n) x = Inr st1"
    and 2: "place_results cw st1 xs = Inr st"
    unfolding items by (auto split: sum.splits)
  have l: "length (columns st1) = length (heightPerColumn st1)"
    using place_length [OF 1] by simp
  have "columns st1 ! 0 \<noteq> []" using place_first [OF assms(1) 1] by simp
  then show ?thesis using place_results_keeps [OF l 2] by blast
qed

lemma contentColumns_first_column:
  "\<exists>c0 rest. contentColumns mode dat w = Inr (c0 # rest, columnWidth_of mode w) \<and>
      (c0 = [] \<longleftrightarrow> fetched_items dat = [])"
proof -
  let ?n = "nat (columnCount_of mode w)"
  have n: "0 < ?n" using columnCount_ge_1 [of mode w] by simp
  show ?thesis
  proof (cases dat)
    case None
    have "replicate ?n ([]::KlipyContent list) = [] # replicate (?n - 1) []"
      using n by (cases ?n) auto
    then show ?thesis using None by (simp add: contentColumns_None fetched_items_def)
  next
    case (Some d)
    let ?items = "concat (map results (pages d))"
    obtain st where st: "place_results (columnWidth_of mode w) (initial_layout ?n) ?items = Inr st"
      and c: "contentColumns mode (Some d) w = Inr (columns st, columnWidth_of mode w)"
      using contentColumns_Some by blast
    have len: "length (columns st) = ?n" using layout_run(2) [OF st] .
    then obtain c0 rest where cr: "columns st = c0 # rest" using n by (cases "columns st") auto
    have "c0 = [] \<longleftrightarrow> ?items = []"
    proof (cases "?items = []")
      case True
      have "place_results (columnWidth_of mode w) (initial_layout ?n) [] = Inr st"
        using st unfolding True .
      then have "st = initial_layout ?n" by simp
      then have "columns st ! 0 = []" using n by simp
      then show ?thesis using True cr by simp
    next
      case False
      then show ?thesis using first_column_nonempty [OF n False st] cr by simp
    qed
    then show ?thesis using Some c cr by (simp add: fetched_items_def)
  qed
qed

lemma run_one:
  "place_results (Num 131) (initial_layout 2) [sample_content 1 (Num 100) (Num 100)] =
     Inr \<lparr>seenContent = {1}, columns = [[sample_content 1 (Num 100) (Num 100)], []],
          heightPerColumn = [Num 131, Num 0]\<rparr>"
  by (simp add: eval_simps numeral_2_eq_2)

lemma scenario_first:
  "page_arrives sample_server first_fetch =
     \<lparr>fetched = [sample_page [] 1 True], in_flight = None, network_calls = [1]\<rparr>"
  by (simp add: first_fetch_def initialPageParam_def page_arrives_def sample_server_def)

lemma scenario_second:
  "page_arrives sample_server
     (fetchNextPage \<lparr>fetched = [sample_page [] 1 True], in_flight = None, network_calls = [1]\<rparr>) =
     \<lparr>fetched = [sample_page [] 1 True, sample_page [] 2 False], in_flight = None,
      network_calls = [1, 2]\<rparr>"
  by (simp add: page_arrives_def fetchNextPage_def getNextPageParam_def sample_page_def
      sample_server_def)

lemma scenario_third:
  "page_arrives sample_server
     (fetchNextPage \<lparr>fetched = [sample_page [] 1 True, sample_page [] 2 False], in_flight = None,
      network_calls = [1, 2]\<rparr>) =
     \<lparr>fetched = [sample_page [] 1 True, sample_page [] 2 False], in_flight = None,
      network_calls = [1, 2]\<rparr>"
  by (simp add: page_arrives_def fetchNextPage_def getNextPageParam_def sample_page_def)

lemma auto_fill_triggers:
  "\<not> isLoading q \<Longrightarrow> hasNextPage q \<Longrightarrow> scrollHeight el \<le> clientHeight el \<Longrightarrow>
     autoFillEffect q (Some el) = [FetchNextPage]"
  by (simp add: autoFillEffect_def Let_def)

lemma auto_fill_any_fetching:
  "autoFillEffect (q\<lparr>isFetchingNextPage := b\<rparr>) scrollRef = autoFillEffect q scrollRef"
  by (simp add: autoFillEffect_def Let_def split: option.splits)

text \<open>The balance of the columns: the facts behind claim C4.\<close>

lemma js_lt_Num [simp]: "js_lt (Num a) (Num b) \<longleftrightarrow> a < b"
  by (simp add: js_lt_def)

lemma leftmost_min_Num:
  assumes "leftmost_min (map Num rs) i"
  shows "i < length rs" "\<forall>b\<in>set rs. rs ! i \<le> b"
proof -
  show i: "i < length rs" using assms by (simp add: leftmost_min_def)
  have "\<forall>j<length rs. \<not> rs ! j < rs ! i"
    using assms i by (simp add: leftmost_min_def)
  then show "\<forall>b\<in>set rs. rs ! i \<le> b" by (auto simp: in_set_conv_nth not_less)
qed

text \<open>One placement keeps the bound when the sum it forms is exact.\<close>

lemma balance_place:
  assumes len: "length (columns st) = length (heightPerColumn st)"
    and hs: "heightPerColumn st = map Num rs"
    and bound: "\<forall>a\<in>set rs. \<forall>b\<in>set rs. a - b \<le> B"
    and h: "heightForContent c cw = Num h" "0 \<le> h" "h \<le> B"
    and exact: "\<And>i. content_id c \<notin> seenContent st \<Longrightarrow> leftmost_min (heightPerColumn st) i \<Longrightarrow>
        js_add (heightPerColumn st ! i) (heightForContent c cw) =
          Num (val (heightPerColumn st ! i) + val (heightForContent c cw))"
    and p: "place cw st c = Inr st'"
  shows "\<exists>rs'. heightPerColumn st' = map Num rs' \<and> (\<forall>a\<in>set rs'. \<forall>b\<in>set rs'. a - b \<le> B)"
proof (cases rule: place_cases [OF len, of c cw, case_names seen skip put])
  case seen
  then show ?thesis using p hs bound by auto
next
  case skip
  then show ?thesis using p hs bound by auto
next
  case (put i)
  have lm: "leftmost_min (map Num rs) i" using put(3) hs by simp
  note m = leftmost_min_Num [OF lm]
  let ?rs = "rs[i := rs ! i + h]"
  have "js_add (heightPerColumn st ! i) (heightForContent c cw) = Num (rs ! i + h)"
    using exact [OF put(1,3)] hs h(1) m(1) by simp
  moreover have "st' = \<lparr>seenContent = insert (content_id c) (seenContent st),
        columns = (columns st)[i := columns st ! i @ [c]],
        heightPerColumn = (heightPerColumn st)[i := js_add (heightPerColumn st ! i) (heightForContent c cw)]\<rparr>"
    using p put(4) by simp
  ultimately have "heightPerColumn st' = (map Num rs)[i := Num (rs ! i + h)]"
    using hs by simp
  then have hs': "heightPerColumn st' = map Num ?rs"
    by (simp add: map_update)
  have sub: "set ?rs \<subseteq> insert (rs ! i + h) (set rs)" by (rule set_update_subset_insert)
  have "a - b \<le> B" if a: "a \<in> set ?rs" and b: "b \<in> set ?rs" for a b
  proof -
    have a': "a = rs ! i + h \<or> a \<in> set rs" and b': "b = rs ! i + h \<or> b \<in> set rs"
      using a b sub by auto
    have ri: "rs ! i \<in> set rs" using m(1) by simp
    show ?thesis
    proof (cases "a = rs ! i + h")
      case True
      then show ?thesis using b' m(2) h(2,3) by auto
    next
      case False
      then have ain: "a \<in> set rs" using a' by simp
      show ?thesis
      proof (cases "b = rs ! i + h")
        case True
        have "a - rs ! i \<le> B" using bound ain ri by blast
        then show ?thesis using True h(2) by simp
      next
        case False
        then show ?thesis using b' ain bound by blast
      qed
    qed
  qed
  then show ?thesis using hs' by blast
qed

lemma balance_prefix:
  assumes pos: "\<forall>x\<in>set items. \<exists>h. heightForContent x cw = Num h \<and> 0 \<le> h \<and> h \<le> B"
    and B: "0 \<le> B"
    and exact: "sums_exact cw n items"
  shows "k \<le> length items \<Longrightarrow>
     \<exists>st rs. place_results cw (initial_layout n) (take k items) = Inr st \<and>
        heightPerColumn st = map Num rs \<and> length rs = n \<and>
        (\<forall>a\<in>set rs. \<forall>b\<in>set rs. a - b \<le> B)"
proof (induction k)
  case 0
  have "heightPerColumn (initial_layout n) = map Num (replicate n 0)" by simp
  moreover have "\<forall>a\<in>set (replicate n (0::real)). \<forall>b\<in>set (replicate n (0::real)). a - b \<le> B"
    using B by auto
  ultimately show ?case by (intro exI [of _ "initial_layout n"] exI [of _ "replicate n 0"]) simp
next
  case (Suc k)
  then have k: "k < length items" by simp
  obtain st rs where st: "place_results cw (initial_layout n) (take k items) = Inr st"
    and rs: "heightPerColumn st = map Num rs" "length rs = n"
      "\<forall>a\<in>set rs. \<forall>b\<in>set rs. a - b \<le> B"
    using Suc.IH k by auto
  let ?x = "items ! k"
  obtain st' where p: "place cw st ?x = Inr st'" using place_total by blast
  have t: "take (Suc k) items = take k items @ [?x]" using k by (rule take_Suc_conv_app_nth)
  have run: "place_results cw (initial_layout n) (take (Suc k) items) = Inr st'"
    unfolding t place_results_snoc [OF st] by (rule p)
  note r = layout_run [OF st]
  have len: "length (columns st) = length (heightPerColumn st)" using r by simp
  have seen_eq: "seenContent st = content_id ` set (take k items)"
    using r(1) by (simp add: layout_inv_def)
  obtain h where h: "heightForContent ?x cw = Num h" "0 \<le> h" "h \<le> B"
    using pos k by (meson nth_mem)
  have ex: "js_add (heightPerColumn st ! i) (heightForContent ?x cw) =
          Num (val (heightPerColumn st ! i) + val (heightForContent ?x cw))"
    if "content_id ?x \<notin> seenContent st" "leftmost_min (heightPerColumn st) i" for i
  proof -
    have "i < length (heightPerColumn st)" using that(2) by (simp add: leftmost_min_def)
    then show ?thesis
      using exact k that st unfolding sums_exact_def seen_eq by auto
  qed
  obtain rs' where rs': "heightPerColumn st' = map Num rs'"
      "\<forall>a\<in>set rs'. \<forall>b\<in>set rs'. a - b \<le> B"
    using balance_place [OF len rs(1,3) h ex p] by blast
  have "length rs' = n" using layout_run(3) [OF run] rs'(1) by (metis length_map)
  then show ?case using run rs' by blast
qed

text \<open>A run of three items in two columns of width 131 in which no sum is rounded.\<close>

lemma sample_heights:
  "heightForContent (sample_content i (Num 100) (Num 100)) (Num 131) = Num 131"
  "heightForContent (sample_content i (Num 200) (Num 100)) (Num 131) = Num (131 / 2)"
  "heightForContent (sample_content i (Num 100) (Num 200)) (Num 131) = Num 262"
  "heightForContent (sample_content i (Num 300) (Num 100)) (Num 131) = Num (6145536991515989 / 2 ^ 47)"
  by (simp_all add: js_div_def round_simps)

lemma leftmost_min_pair:
  "leftmost_min [Num a, Num b] i \<longleftrightarrow> (i = 0 \<and> a \<le> b) \<or> (i = 1 \<and> b < a)"
  by (auto simp: leftmost_min_def All_less_Suc less_Suc_eq numeral_2_eq_2)

lemma sample_run_0: "place_results (Num 131) (initial_layout 2) [] = Inr \<lparr>seenContent = {}, columns = [[], []], heightPerColumn = [Num 0, Num 0]\<rparr>"
  by (simp add: initial_layout_def numeral_2_eq_2)

lemma sample_run_1: "place_results (Num 131) (initial_layout 2) [sample_content 1 (Num 100) (Num 100)]
   = Inr \<lparr>seenContent = {1}, columns = [[sample_content 1 (Num 100) (Num 100)], []], heightPerColumn = [Num 131, Num 0]\<rparr>"
  by (simp add: eval_simps numeral_2_eq_2)

lemma sample_run_2: "place_results (Num 131) (initial_layout 2) [sample_content 1 (Num 100) (Num 100), sample_content 2 (Num 200) (Num 100)]
   = Inr \<lparr>seenContent = {2, 1}, columns = [[sample_content 1 (Num 100) (Num 100)], [sample_content 2 (Num 200) (Num 100)]], heightPerColumn = [Num 131, Num (131 / 2)]\<rparr>"
  by (simp add: eval_simps numeral_2_eq_2)

lemma sums_exact_sample:
  "sums_exact (Num 131) 2
     [sample_content 1 (Num 100) (Num 100), sample_content 2 (Num 200) (Num 100),
      sample_content 3 (Num 100) (Num 200)]"
proof -
  have k0: "\<forall>i. leftmost_min [Num 0, Num 0] i \<longrightarrow>
      js_add ([Num 0, Num 0] ! i) (Num 131) = Num (val ([Num 0, Num 0] ! i) + 131)"
    by (auto simp: leftmost_min_pair js_add_def round_simps)
  have k1: "\<forall>i. leftmost_min [Num 131, Num 0] i \<longrightarrow>
      js_add ([Num 131, Num 0] ! i) (Num (131 / 2)) = Num (val ([Num 131, Num 0] ! i) + 131 / 2)"
    by (auto simp: leftmost_min_pair js_add_def round_simps)
  have k2: "\<forall>i. leftmost_min [Num 131, Num (131 / 2)] i \<longrightarrow>
      js_add ([Num 131, Num (131 / 2)] ! i) (Num 262) = Num (val ([Num 131, Num (131 / 2)] ! i) + 262)"
    by (auto simp: leftmost_min_pair js_add_def round_simps)
  have three: "(3::nat) = Suc (Suc (Suc 0))" by simp
  show ?thesis
    unfolding sums_exact_def
    using k0 k1 k2 sample_run_0 sample_run_1 sample_run_2
    by (simp add: three All_less_Suc sample_heights del: sample_content_height)
qed

section \<open>The claims\<close>

subsection \<open>C1: each id at most once, the first occurrence, in fetch order\<close>

text \<open>
  C1, as amended. For every sequence of fetched pages and every window width the layout is
  computed without error. No id occurs twice in its columns, every column lists its items in
  the order in which they were fetched (page after page, then within the page), and an item
  placed is the first one fetched with its id. Every fetched id occurs in the columns, hence
  exactly once, if and only if no item with an id not seen before arrives when an accumulated
  column height is \<open>NaN\<close>.
\<close>

theorem dedup_first_occurrence:
  "\<exists>cols. contentColumns mode (Some d) w = Inr (cols, columnWidth_of mode w) \<and>
     distinct (map content_id (concat cols)) \<and>
     (\<forall>col\<in>set cols. subseq col (concat (map results (pages d)))) \<and>
     (\<forall>x\<in>set (concat cols).
        find (\<lambda>y. content_id y = content_id x) (concat (map results (pages d))) = Some x) \<and>
     (content_id ` set (concat cols) = content_id ` set (concat (map results (pages d))) \<longleftrightarrow>
        (\<forall>k<length (concat (map results (pages d))).
           \<not> arrives_at_NaN (columnWidth_of mode w) (nat (columnCount_of mode w))
                (concat (map results (pages d))) k))"
proof -
  let ?items = "concat (map results (pages d))" and ?cw = "columnWidth_of mode w"
  let ?n = "nat (columnCount_of mode w)"
  obtain st where st: "place_results ?cw (initial_layout ?n) ?items = Inr st"
    and c: "contentColumns mode (Some d) w = Inr (columns st, ?cw)"
    using contentColumns_Some by blast
  have n: "0 < ?n" using columnCount_ge_1 [of mode w] by simp
  have inv: "layout_inv ?items st" using layout_run(1) [OF st] .
  have "content_id ` set (concat (columns st)) = content_id ` set ?items \<longleftrightarrow>
      (\<forall>k<length ?items. \<not> arrives_at_NaN ?cw ?n ?items k)"
  proof
    assume eq: "content_id ` set (concat (columns st)) = content_id ` set ?items"
    show "\<forall>k<length ?items. \<not> arrives_at_NaN ?cw ?n ?items k"
    proof (intro allI impI notI)
      fix k assume k: "k < length ?items" and a: "arrives_at_NaN ?cw ?n ?items k"
      have "content_id (?items ! k) \<notin> content_id ` set ?items"
        using arrival_incomplete [OF a st] eq by simp
      then show False using k nth_mem by blast
    qed
  next
    assume "\<forall>k<length ?items. \<not> arrives_at_NaN ?cw ?n ?items k"
    then show "content_id ` set (concat (columns st)) = content_id ` set ?items"
      using no_arrival_complete [OF n _ st] by blast
  qed
  then show ?thesis using c inv unfolding layout_inv_def by blast
qed

text \<open>
  C1 on two overlapping pages: no accumulated height is \<open>NaN\<close>, and the three ids fetched are
  each placed once.
\<close>

theorem dedup_first_occurrence_witness:
  "\<exists>cols. contentColumns ''canvas''
        (Some \<lparr>pages = [sample_page [sample_content 1 (Num 100) (Num 100), sample_content 2 (Num 200) (Num 100)] 1 True,
                  sample_page [sample_content 2 (Num 200) (Num 100), sample_content 3 (Num 100) (Num 200)] 2 False]\<rparr>) 300
      = Inr (cols, Num 131) \<and>
      distinct (map content_id (concat cols)) \<and>
      content_id ` set (concat cols) = {1, 2, 3}"
proof -
  let ?d = "\<lparr>pages = [sample_page [sample_content 1 (Num 100) (Num 100), sample_content 2 (Num 200) (Num 100)] 1 True,
                  sample_page [sample_content 2 (Num 200) (Num 100), sample_content 3 (Num 100) (Num 200)] 2 False]\<rparr>"
  let ?items = "[sample_content 1 (Num 100) (Num 100), sample_content 2 (Num 200) (Num 100),
      sample_content 2 (Num 200) (Num 100), sample_content 3 (Num 100) (Num 200)]"
  have cw: "columnWidth_of ''canvas'' 300 = Num 131" and n: "nat (columnCount_of ''canvas'' 300) = 2"
    by (simp_all add: geometry_simps js_div_def round_simps)
  have items: "concat (map results (pages ?d)) = ?items" by simp
  have run: "place_results (Num 131) (initial_layout 2) ?items =
      Inr \<lparr>seenContent = {3, 2, 1},
           columns = [[sample_content 1 (Num 100) (Num 100)],
                      [sample_content 2 (Num 200) (Num 100), sample_content 3 (Num 100) (Num 200)]],
           heightPerColumn = [Num 131, Num (655 / 2)]\<rparr>"
    by (simp add: eval_simps numeral_2_eq_2)
  have free: "\<forall>k<length ?items. \<not> arrives_at_NaN (Num 131) 2 ?items k"
    using NaN_free_no_arrival [OF run] by simp
  have i: "content_id ` set ?items = {1, 2, 3}" by auto
  show ?thesis
    using dedup_first_occurrence [of "''canvas''" ?d 300] free unfolding cw n items i by blast
qed

text \<open>
  C1 as stated fails: the first item has width and height 0, its height is \<open>0 / 0\<close>, the
  accumulator of the only column becomes \<open>NaN\<close>, \<open>indexOf\<close> answers \<open>-1\<close> from then on and
  the items with ids 2 and 3 are placed in no column.
\<close>

theorem dedup_first_occurrence_counterexample:
  "contentColumns ''canvas''
     (Some \<lparr>pages = [sample_page [sample_content 1 (Num 0) (Num 0), sample_content 2 (Num 100) (Num 100)] 1 True,
                     sample_page [sample_content 2 (Num 100) (Num 100), sample_content 3 (Num 100) (Num 50)] 2 False]\<rparr>) 150
   = Inr ([[sample_content 1 (Num 0) (Num 0)]], Num 120)
   \<and> 2 \<notin> content_id ` set (concat [[sample_content 1 (Num 0) (Num 0)]])"
  by (simp add: contentColumns_def geometry_simps eval_simps)

subsection \<open>C2: the leftmost column of minimal height\<close>

text \<open>
  C2, as amended. After any item sequence, for every column count of at least 1 and every
  column width, the next item with a fresh id is appended to the column whose accumulated
  height is minimal, the leftmost of them on a tie, and
  \<open>columnWidth / (width / height)\<close>, read from the gif of the \<open>md\<close> tier, is added to
  the accumulator of that column, provided no accumulated height is \<open>NaN\<close>.
\<close>

theorem greedy_step:
  assumes "place_results cw (initial_layout n) items = Inr st"
    and "content_id x \<notin> content_id ` set items"
    and "0 < n"
    and "NaN \<notin> set (heightPerColumn st)"
  shows "\<exists>i. leftmost_min (heightPerColumn st) i \<and> i < n \<and>
     place_results cw (initial_layout n) (items @ [x]) =
       Inr \<lparr>seenContent = insert (content_id x) (seenContent st),
            columns = (columns st)[i := columns st ! i @ [x]],
            heightPerColumn = (heightPerColumn st)
              [i := js_add (heightPerColumn st ! i)
                     (js_div cw (js_div (width (gif (md_tier (files x)))) (height (gif (md_tier (files x))))))]\<rparr>"
proof -
  note r = layout_run [OF assms(1)]
  have len: "length (columns st) = length (heightPerColumn st)" using r by simp
  have fresh: "content_id x \<notin> seenContent st" using r(1) assms(2) by (simp add: layout_inv_def)
  have ne: "heightPerColumn st \<noteq> []" using r(3) assms(3) by auto
  have hx: "heightForContent x cw =
      js_div cw (js_div (width (gif (md_tier (files x)))) (height (gif (md_tier (files x)))))"
    by (simp add: heightForContent_def getContentDimensions_def Let_def)
  show ?thesis
  proof (cases rule: place_cases [OF len, of x cw, case_names seen skip put])
    case seen
    then show ?thesis using fresh by simp
  next
    case skip
    then show ?thesis using assms(4) ne by simp
  next
    case (put i)
    have "i < n" using put(3) r(3) by (simp add: leftmost_min_def)
    then show ?thesis
      using put(3,4) unfolding place_results_snoc [OF assms(1)] hx by blast
  qed
qed

text \<open>
  The hypotheses of C2 hold after one square item in two columns of width 131: the second
  item goes to the second column, whose height is 0.
\<close>

theorem greedy_step_witness:
  "place_results (Num 131) (initial_layout 2) [sample_content 1 (Num 100) (Num 100)] =
     Inr \<lparr>seenContent = {1}, columns = [[sample_content 1 (Num 100) (Num 100)], []],
          heightPerColumn = [Num 131, Num 0]\<rparr> \<and>
   content_id (sample_content 2 (Num 200) (Num 100))
     \<notin> content_id ` set [sample_content 1 (Num 100) (Num 100)] \<and>
   0 < (2::nat) \<and> NaN \<notin> set [Num 131, Num 0] \<and>
   (\<exists>i. leftmost_min [Num 131, Num 0] i \<and> i < 2 \<and>
      place_results (Num 131) (initial_layout 2)
        ([sample_content 1 (Num 100) (Num 100)] @ [sample_content 2 (Num 200) (Num 100)]) =
      Inr \<lparr>seenContent = {2, 1},
           columns = [[sample_content 1 (Num 100) (Num 100)], []]
             [i := [[sample_content 1 (Num 100) (Num 100)], []] ! i @ [sample_content 2 (Num 200) (Num 100)]],
           heightPerColumn = [Num 131, Num 0][i := js_add ([Num 131, Num 0] ! i) (Num (131 / 2))]\<rparr>)"
proof -
  have h2: "content_id (sample_content 2 (Num 200) (Num 100))
     \<notin> content_id ` set [sample_content 1 (Num 100) (Num 100)]" by simp
  have h3: "0 < (2::nat)" by simp
  have h4: "NaN \<notin> set (heightPerColumn \<lparr>seenContent = {1}, columns = [[sample_content 1 (Num 100) (Num 100)], []],
          heightPerColumn = [Num 131, Num 0]\<rparr>)" by simp
  have w: "js_div (Num 131)
        (js_div (width (gif (md_tier (files (sample_content 2 (Num 200) (Num 100))))))
                (height (gif (md_tier (files (sample_content 2 (Num 200) (Num 100))))))) = Num (131 / 2)"
    by (simp add: sample_content_def sample_file_def Let_def js_div_def round_simps)
  show ?thesis
    using greedy_step [OF run_one h2 h3 h4] run_one h2 unfolding w by simp
qed

text \<open>
  C2 as stated fails: a window of width 300 gives two columns of width 131; the first item
  has width and height 0, so its height is \<open>0 / 0\<close> and the first accumulator becomes
  \<open>NaN\<close>; the second item is then appended to no column, although the second column has
  the height 0.
\<close>

theorem greedy_step_counterexample:
  "columnCount_of ''canvas'' 300 = 2 \<and> columnWidth_of ''canvas'' 300 = Num 131 \<and>
   place_results (Num 131) (initial_layout 2)
      [sample_content 1 (Num 0) (Num 0), sample_content 2 (Num 100) (Num 100)] =
     Inr \<lparr>seenContent = {2, 1}, columns = [[sample_content 1 (Num 0) (Num 0)], []],
          heightPerColumn = [NaN, Num 0]\<rparr>"
  by (simp add: geometry_simps eval_simps numeral_2_eq_2)

subsection \<open>C3: one more item\<close>

text \<open>
  C3, as amended. Running the assignment on a sequence extended with one item, with the same
  column count and width, gives the columns of the first run with the item appended to exactly
  one column when the id of the item is fresh, there is a column and no accumulated height of
  the first run is \<open>NaN\<close>; otherwise it gives the columns of the first run unchanged. In
  both cases no item already placed moves.
\<close>

theorem incremental_append:
  assumes "place_results cw (initial_layout n) items = Inr st"
  shows "\<exists>st'. place_results cw (initial_layout n) (items @ [x]) = Inr st' \<and>
     (if content_id x \<notin> content_id ` set items \<and> 0 < n \<and> NaN \<notin> set (heightPerColumn st)
      then \<exists>!i. i < n \<and> columns st' = (columns st)[i := columns st ! i @ [x]]
      else columns st' = columns st)"
proof -
  note r = layout_run [OF assms(1)]
  have len: "length (columns st) = length (heightPerColumn st)" using r by simp
  have seen_eq: "seenContent st = content_id ` set items" using r(1) by (simp add: layout_inv_def)
  note snoc = place_results_snoc [OF assms(1), of x]
  show ?thesis
  proof (cases rule: place_cases [OF len, of x cw, case_names seen skip put])
    case seen
    then show ?thesis using snoc seen_eq by simp
  next
    case skip
    have "\<not> (0 < n \<and> NaN \<notin> set (heightPerColumn st))" using skip(2) r(3) by auto
    then show ?thesis using snoc skip(3) by auto
  next
    case (put i)
    let ?st' = "\<lparr>seenContent = insert (content_id x) (seenContent st),
              columns = (columns st)[i := columns st ! i @ [x]],
              heightPerColumn = (heightPerColumn st)[i := js_add (heightPerColumn st ! i) (heightForContent x cw)]\<rparr>"
    have i: "i < n" using put(3) r(3) by (simp add: leftmost_min_def)
    have c: "content_id x \<notin> content_id ` set items \<and> 0 < n \<and> NaN \<notin> set (heightPerColumn st)"
      using put(1,2) seen_eq i by simp
    have u: "\<exists>!k. k < n \<and> columns ?st' = (columns st)[k := columns st ! k @ [x]]"
    proof (rule ex1I [of _ i])
      show "i < n \<and> columns ?st' = (columns st)[i := columns st ! i @ [x]]" using i by simp
    next
      fix k assume "k < n \<and> columns ?st' = (columns st)[k := columns st ! k @ [x]]"
      then show "k = i" using update_snoc_inj [of k "columns st" i x] i r(2) by simp
    qed
    have "place_results cw (initial_layout n) (items @ [x]) = Inr ?st'"
      using snoc put(4) by simp
    then show ?thesis using c u by (intro exI [of _ ?st']) (simp only: if_True simp_thms)
  qed
qed

text \<open>
  The hypothesis of C3 holds for one square item in two columns, and a second item with a
  fresh id is appended to exactly one column.
\<close>

theorem incremental_append_witness:
  "place_results (Num 131) (initial_layout 2) [sample_content 1 (Num 100) (Num 100)] =
     Inr \<lparr>seenContent = {1}, columns = [[sample_content 1 (Num 100) (Num 100)], []],
          heightPerColumn = [Num 131, Num 0]\<rparr> \<and>
   (\<exists>st'. place_results (Num 131) (initial_layout 2)
        ([sample_content 1 (Num 100) (Num 100)] @ [sample_content 2 (Num 200) (Num 100)]) = Inr st' \<and>
      (\<exists>!i. i < 2 \<and> columns st' = [[sample_content 1 (Num 100) (Num 100)], []]
             [i := [[sample_content 1 (Num 100) (Num 100)], []] ! i @ [sample_content 2 (Num 200) (Num 100)]]))"
  using incremental_append [OF run_one, of "sample_content 2 (Num 200) (Num 100)"] run_one
  by simp

text \<open>
  C3 as stated fails: after an item of width and height 0 the accumulator is \<open>NaN\<close>, and
  a new item with a fresh id is appended to no column.
\<close>

theorem incremental_append_counterexample:
  "place_results (Num 120) (initial_layout 1) [sample_content 1 (Num 0) (Num 0)] =
     Inr \<lparr>seenContent = {1}, columns = [[sample_content 1 (Num 0) (Num 0)]], heightPerColumn = [NaN]\<rparr> \<and>
   place_results (Num 120) (initial_layout 1)
      ([sample_content 1 (Num 0) (Num 0)] @ [sample_content 2 (Num 100) (Num 100)]) =
     Inr \<lparr>seenContent = {2, 1}, columns = [[sample_content 1 (Num 0) (Num 0)]], heightPerColumn = [NaN]\<rparr>"
  by (simp add: eval_simps)

subsection \<open>C4: the balance of the columns\<close>




subsection \<open>C5: the geometry\<close>

text \<open>
  C5, as amended. For the available content width \<open>W\<close> (the window width minus the side
  padding), the minimum column width \<open>M\<close> and the gap \<open>G\<close>, the column count is
  \<open>max 1 (floor ((W + G) / (M + G)))\<close> and the column width is
  \<open>(W - (columnCount - 1) * G) / columnCount\<close>, as a double; the count is at least 1 for
  every window width, and the memoised layout has that many columns. \<open>M\<close> depends on the mode
  of the host (120 in the image mode, 110 otherwise), not on the content kind: whatever the
  kind, the grid rendered has the column count and width of the mode and the deferred width.
\<close>

theorem column_geometry:
  "columnCount_of mode w =
     max 1 \<lfloor>real_of_int ((w - sidePadding) + columnGap) / real_of_int (minColumnWidth mode + columnGap)\<rfloor>
   \<and> columnWidth_of mode w =
       round_double (real_of_int ((w - sidePadding) - (columnCount_of mode w - 1) * columnGap)
            / real_of_int (columnCount_of mode w))
   \<and> 1 \<le> columnCount_of mode w
   \<and> (\<exists>cols. contentColumns mode dat w = Inr (cols, columnWidth_of mode w)
             \<and> int (length cols) = columnCount_of mode w)
   \<and> sidePadding = 30 \<and> columnGap = 8
   \<and> minColumnWidth mode = (if mode = ''image'' then 120 else 110)
   \<and> (GifsList mode contentType userId q c = Inr (Grid gridColumns gridWidth) \<longrightarrow>
        int (length gridColumns) = columnCount_of mode (deferredWindowWidth c) \<and>
        gridWidth = columnWidth_of mode (deferredWindowWidth c))"
proof -
  have 1: "columnCount_of mode w =
     max 1 \<lfloor>real_of_int ((w - sidePadding) + columnGap) / real_of_int (minColumnWidth mode + columnGap)\<rfloor>"
    by (simp add: columnCount_of_def Let_def)
  have 2: "sidePadding = 30 \<and> columnGap = 8 \<and> minColumnWidth mode = (if mode = ''image'' then 120 else 110)"
    by (simp add: sidePadding_def columnGap_def minColumnWidth_def)
  obtain cols where cols: "contentColumns mode (data q) (deferredWindowWidth c)
        = Inr (cols, columnWidth_of mode (deferredWindowWidth c))"
      "int (length cols) = columnCount_of mode (deferredWindowWidth c)"
    using contentColumns_length by blast
  have 3: "GifsList mode contentType userId q c = Inr (Grid gridColumns gridWidth) \<longrightarrow>
        int (length gridColumns) = columnCount_of mode (deferredWindowWidth c) \<and>
        gridWidth = columnWidth_of mode (deferredWindowWidth c)"
    using cols(2) by (auto simp: GifsList_def cols(1) Let_def split: if_splits)
  show ?thesis using 1 2 3 columnWidth_Num [of mode w] columnCount_ge_1 [of mode w]
      contentColumns_length [of mode dat w] by blast
qed

text \<open>
  C5 on one sticker, for a known user, in a window of width 266: two columns of width 114.
\<close>

theorem column_geometry_witness:
  "GifsList ''canvas'' Stickers ''user''
     \<lparr>data = Some \<lparr>pages = [sample_page [(sample_content 1 (Num 100) (Num 100))\<lparr>content_type := ''sticker''\<rparr>] 1 False]\<rparr>,
      isFetchingNextPage = False, isLoading = False, hasNextPage = False\<rparr>
     \<lparr>windowWidth = 266, deferredWindowWidth = 266, previousWindowHeight = 400\<rparr>
     = Inr (Grid [[(sample_content 1 (Num 100) (Num 100))\<lparr>content_type := ''sticker''\<rparr>], []] (Num 114)) \<and>
   int (length [[(sample_content 1 (Num 100) (Num 100))\<lparr>content_type := ''sticker''\<rparr>], []])
     = columnCount_of ''canvas'' 266 \<and>
   Num 114 = columnWidth_of ''canvas'' 266"
proof -
  let ?q = "\<lparr>data = Some \<lparr>pages = [sample_page [(sample_content 1 (Num 100) (Num 100))\<lparr>content_type := ''sticker''\<rparr>] 1 False]\<rparr>,
      isFetchingNextPage = False, isLoading = False, hasNextPage = False\<rparr>"
  let ?c = "\<lparr>windowWidth = 266, deferredWindowWidth = 266, previousWindowHeight = 400\<rparr>"
  let ?cols = "[[(sample_content 1 (Num 100) (Num 100))\<lparr>content_type := ''sticker''\<rparr>], []]"
  have g: "GifsList ''canvas'' Stickers ''user'' ?q ?c = Inr (Grid ?cols (Num 114))"
    by (simp add: GifsList_def contentColumns_def geometry_simps eval_simps numeral_2_eq_2)
  have w: "deferredWindowWidth ?c = 266" by simp
  note cg = column_geometry [of "''canvas''" 266 None Stickers "''user''" ?q ?c ?cols "Num 114",
      unfolded w]
  then have "GifsList ''canvas'' Stickers ''user'' ?q ?c = Inr (Grid ?cols (Num 114)) \<longrightarrow>
      int (length ?cols) = columnCount_of ''canvas'' 266 \<and>
      Num 114 = columnWidth_of ''canvas'' 266"
    by (elim conjE)
  then show ?thesis using g by (intro conjI) (rule g, blast, blast)
qed

text \<open>
  C5 as stated fails: in a window of width 266 the grid of gifs and the grid of stickers both
  have two columns of width 114, the minimum width being 110 for both kinds; the image mode,
  with the minimum width 120, gives one column of width 236.
\<close>

theorem column_geometry_counterexample:
  "GifsList ''canvas'' Gifs ''user''
     \<lparr>data = Some \<lparr>pages = [sample_page [sample_content 1 (Num 100) (Num 100)] 1 False]\<rparr>,
      isFetchingNextPage = False, isLoading = False, hasNextPage = False\<rparr>
     \<lparr>windowWidth = 266, deferredWindowWidth = 266, previousWindowHeight = 400\<rparr>
     = Inr (Grid [[sample_content 1 (Num 100) (Num 100)], []] (Num 114)) \<and>
   GifsList ''canvas'' Stickers ''user''
     \<lparr>data = Some \<lparr>pages = [sample_page [(sample_content 1 (Num 100) (Num 100))\<lparr>content_type := ''sticker''\<rparr>] 1 False]\<rparr>,
      isFetchingNextPage = False, isLoading = False, hasNextPage = False\<rparr>
     \<lparr>windowWidth = 266, deferredWindowWidth = 266, previousWindowHeight = 400\<rparr>
     = Inr (Grid [[(sample_content 1 (Num 100) (Num 100))\<lparr>content_type := ''sticker''\<rparr>], []] (Num 114)) \<and>
   GifsList ''image'' Gifs ''user''
     \<lparr>data = Some \<lparr>pages = [sample_page [sample_content 1 (Num 100) (Num 100)] 1 False]\<rparr>,
      isFetchingNextPage = False, isLoading = False, hasNextPage = False\<rparr>
     \<lparr>windowWidth = 266, deferredWindowWidth = 266, previousWindowHeight = 400\<rparr>
     = Inr (Grid [[sample_content 1 (Num 100) (Num 100)]] (Num 236)) \<and>
   minColumnWidth ''canvas'' = 110 \<and> minColumnWidth ''image'' = 120"
  by (simp add: GifsList_def contentColumns_def geometry_simps eval_simps numeral_2_eq_2)

subsection \<open>C6: the scroll threshold\<close>

text \<open>
  C6. On a scroll event, which comes from the mounted scroll container: while a fetch is
  pending (\<open>isFetchingNextPage\<close> or \<open>isLoading\<close>) the handler does nothing; otherwise
  it calls \<open>fetchNextPage\<close> when \<open>scrollHeight - (clientHeight + scrollTop)\<close> is at most
  150 and does nothing when it is greater.
\<close>

theorem scroll_threshold:
  "(isFetchingNextPage q \<or> isLoading q \<longrightarrow> handleScroll q scrollRef = []) \<and>
   (\<not> isFetchingNextPage q \<and> \<not> isLoading q \<longrightarrow>
      (scrollHeight el - (clientHeight el + scrollTop el) \<le> 150
         \<longrightarrow> handleScroll q (Some el) = [FetchNextPage]) \<and>
      (scrollHeight el - (clientHeight el + scrollTop el) > 150
         \<longrightarrow> handleScroll q (Some el) = []))"
  by (simp add: handleScroll_def Let_def)

text \<open>
  The scenario of C6: with \<open>scrollHeight = 2000\<close> and \<open>clientHeight = 800\<close>,
  \<open>scrollTop = 1055\<close> triggers the fetch, \<open>scrollTop = 1040\<close> does not, and neither does
  anything while the next page is being fetched.
\<close>

theorem scroll_threshold_witness:
  "handleScroll \<lparr>data = None, isFetchingNextPage = False, isLoading = False, hasNextPage = True\<rparr>
      (Some \<lparr>scrollHeight = 2000, clientHeight = 800, scrollTop = 1055\<rparr>) = [FetchNextPage] \<and>
   handleScroll \<lparr>data = None, isFetchingNextPage = False, isLoading = False, hasNextPage = True\<rparr>
      (Some \<lparr>scrollHeight = 2000, clientHeight = 800, scrollTop = 1040\<rparr>) = [] \<and>
   handleScroll \<lparr>data = None, isFetchingNextPage = True, isLoading = False, hasNextPage = True\<rparr>
      (Some \<lparr>scrollHeight = 2000, clientHeight = 800, scrollTop = 1055\<rparr>) = []"
  using
    scroll_threshold [of "\<lparr>data = None, isFetchingNextPage = False, isLoading = False, hasNextPage = True\<rparr>"
      None "\<lparr>scrollHeight = 2000, clientHeight = 800, scrollTop = 1055\<rparr>"]
    scroll_threshold [of "\<lparr>data = None, isFetchingNextPage = False, isLoading = False, hasNextPage = True\<rparr>"
      None "\<lparr>scrollHeight = 2000, clientHeight = 800, scrollTop = 1040\<rparr>"]
    scroll_threshold [of "\<lparr>data = None, isFetchingNextPage = True, isLoading = False, hasNextPage = True\<rparr>"
      "Some \<lparr>scrollHeight = 2000, clientHeight = 800, scrollTop = 1055\<rparr>"]
  by simp

subsection \<open>C7: fetching the next page\<close>

text \<open>
  C7, on the pagination source modelled from the spec. \<open>fetchNextPage\<close> changes nothing
  and issues no network call while a fetch is in flight or when the latest page has no next
  one; otherwise it requests the page numbered \<open>current_page + 1\<close> of the latest page, and
  the page that arrives is appended at the end. With a server of two pages, the first fetch
  and three calls of \<open>fetchNextPage\<close>, each after the arrival of the page requested before,
  make exactly two network calls, and the third call changes nothing.
\<close>

theorem fetch_next_page_gating:
  "(in_flight s \<noteq> None \<longrightarrow> fetchNextPage s = s) \<and>
   (fetched s \<noteq> [] \<and> \<not> has_next (last (fetched s)) \<longrightarrow> fetchNextPage s = s) \<and>
   (in_flight s = None \<and> fetched s \<noteq> [] \<and> has_next (last (fetched s)) \<longrightarrow>
      fetchNextPage s =
        s\<lparr>in_flight := Some (current_page (last (fetched s)) + 1),
          network_calls := network_calls s @ [current_page (last (fetched s)) + 1]\<rparr>) \<and>
   (in_flight s = Some k \<longrightarrow>
      page_arrives server s = s\<lparr>fetched := fetched s @ [server k], in_flight := None\<rparr>) \<and>
   (let s1 = page_arrives sample_server first_fetch;
        s2 = page_arrives sample_server (fetchNextPage s1);
        s3 = page_arrives sample_server (fetchNextPage s2)
    in fetched s3 = [sample_page [] 1 True, sample_page [] 2 False] \<and>
       network_calls (fetchNextPage s3) = [1, 2] \<and>
       fetchNextPage s3 = s3)"
proof -
  have 1: "in_flight s \<noteq> None \<longrightarrow> fetchNextPage s = s"
    by (simp add: fetchNextPage_def)
  have 2: "fetched s \<noteq> [] \<and> \<not> has_next (last (fetched s)) \<longrightarrow> fetchNextPage s = s"
    by (auto simp: fetchNextPage_def getNextPageParam_def split: list.splits)
  have 3: "in_flight s = None \<and> fetched s \<noteq> [] \<and> has_next (last (fetched s)) \<longrightarrow>
      fetchNextPage s =
        s\<lparr>in_flight := Some (current_page (last (fetched s)) + 1),
          network_calls := network_calls s @ [current_page (last (fetched s)) + 1]\<rparr>"
    by (auto simp: fetchNextPage_def getNextPageParam_def split: list.splits)
  have 4: "in_flight s = Some k \<longrightarrow>
      page_arrives server s = s\<lparr>fetched := fetched s @ [server k], in_flight := None\<rparr>"
    by (simp add: page_arrives_def)
  have 5: "(let s1 = page_arrives sample_server first_fetch;
        s2 = page_arrives sample_server (fetchNextPage s1);
        s3 = page_arrives sample_server (fetchNextPage s2)
    in fetched s3 = [sample_page [] 1 True, sample_page [] 2 False] \<and>
       network_calls (fetchNextPage s3) = [1, 2] \<and>
       fetchNextPage s3 = s3)"
    unfolding Let_def scenario_first scenario_second scenario_third
    by (simp add: fetchNextPage_def getNextPageParam_def sample_page_def)
  show ?thesis
    by (rule conjI [OF 1 conjI [OF 2 conjI [OF 3 conjI [OF 4 5]]]])
qed

text \<open>
  The four cases of C7 on concrete sources: a fetch in flight, a latest page without a next
  one, a latest page with a next one, and the arrival of the page requested.
\<close>

theorem fetch_next_page_gating_witness:
  "fetchNextPage \<lparr>fetched = [sample_page [] 1 True], in_flight = Some 2, network_calls = [1, 2]\<rparr>
     = \<lparr>fetched = [sample_page [] 1 True], in_flight = Some 2, network_calls = [1, 2]\<rparr> \<and>
   fetchNextPage \<lparr>fetched = [sample_page [] 1 True, sample_page [] 2 False], in_flight = None,
                  network_calls = [1, 2]\<rparr>
     = \<lparr>fetched = [sample_page [] 1 True, sample_page [] 2 False], in_flight = None,
        network_calls = [1, 2]\<rparr> \<and>
   fetchNextPage \<lparr>fetched = [sample_page [] 1 True], in_flight = None, network_calls = [1]\<rparr>
     = \<lparr>fetched = [sample_page [] 1 True], in_flight = Some 2, network_calls = [1, 2]\<rparr> \<and>
   page_arrives (\<lambda>k. sample_page [] k False)
       \<lparr>fetched = [sample_page [] 1 True], in_flight = Some 2, network_calls = [1, 2]\<rparr>
     = \<lparr>fetched = [sample_page [] 1 True, sample_page [] 2 False], in_flight = None,
        network_calls = [1, 2]\<rparr>"
  using
    fetch_next_page_gating [of "\<lparr>fetched = [sample_page [] 1 True], in_flight = Some 2, network_calls = [1, 2]\<rparr>"
       2 "\<lambda>k. sample_page [] k False"]
    fetch_next_page_gating [of "\<lparr>fetched = [sample_page [] 1 True, sample_page [] 2 False], in_flight = None,
                  network_calls = [1, 2]\<rparr>"]
    fetch_next_page_gating [of "\<lparr>fetched = [sample_page [] 1 True], in_flight = None, network_calls = [1]\<rparr>"]
  by (simp add: sample_page_def)

subsection \<open>C8: filling the viewport\<close>

text \<open>
  C8. The effect that fills the viewport calls \<open>fetchNextPage\<close> when the content does not
  overflow the container, a next page exists and \<open>isLoading\<close> is false
  (\<open>auto_fill_triggers\<close>). It does not read \<open>isFetchingNextPage\<close>
  (\<open>auto_fill_any_fetching\<close>): in the state below the next page is being fetched, the
  scroll handler drops the trigger, and the effect calls \<open>fetchNextPage\<close> again.
\<close>

theorem auto_fill_while_fetching:
  "autoFillEffect
      \<lparr>data = Some \<lparr>pages = [sample_page [sample_content 1 (Num 100) (Num 100)] 1 True]\<rparr>,
       isFetchingNextPage = True, isLoading = False, hasNextPage = True\<rparr>
      (Some \<lparr>scrollHeight = 800, clientHeight = 2000, scrollTop = 0\<rparr>) = [FetchNextPage] \<and>
   handleScroll
      \<lparr>data = Some \<lparr>pages = [sample_page [sample_content 1 (Num 100) (Num 100)] 1 True]\<rparr>,
       isFetchingNextPage = True, isLoading = False, hasNextPage = True\<rparr>
      (Some \<lparr>scrollHeight = 800, clientHeight = 2000, scrollTop = 0\<rparr>) = []"
  by (simp add: autoFillEffect_def handleScroll_def Let_def)

subsection \<open>C9: resizing the window\<close>

text \<open>
  C9, as amended. A resize event stores the new window width at once. The column count and
  width are recomputed from the new width, not in the render that follows the event, which
  still lays out from the deferred width and renders what it rendered before, but in the
  deferred render after it. The height recorded becomes the new height, and the scroll check
  is run again exactly when the new height is strictly greater than the height recorded
  before.
\<close>

theorem resize_deferred_geometry:
  "windowWidth (fst (handleResize q scrollRef win c)) = innerWidth win \<and>
   previousWindowHeight (fst (handleResize q scrollRef win c)) = innerHeight win \<and>
   GifsList mode contentType userId q (fst (handleResize q scrollRef win c))
     = GifsList mode contentType userId q c \<and>
   (\<exists>cols. contentColumns mode (data q)
        (deferredWindowWidth (deferred_render (fst (handleResize q scrollRef win c))))
      = Inr (cols, columnWidth_of mode (innerWidth win)) \<and>
      int (length cols) = columnCount_of mode (innerWidth win)) \<and>
   snd (handleResize q scrollRef win c) =
     (if previousWindowHeight c < innerHeight win then HandleScroll # handleScroll q scrollRef else []) \<and>
   (HandleScroll \<in> set (snd (handleResize q scrollRef win c))
      \<longleftrightarrow> previousWindowHeight c < innerHeight win)"
proof -
  have d: "deferredWindowWidth (deferred_render (fst (handleResize q scrollRef win c))) = innerWidth win"
    by (simp add: handleResize_def deferred_render_def Let_def)
  have 1: "windowWidth (fst (handleResize q scrollRef win c)) = innerWidth win \<and>
      previousWindowHeight (fst (handleResize q scrollRef win c)) = innerHeight win \<and>
      GifsList mode contentType userId q (fst (handleResize q scrollRef win c))
        = GifsList mode contentType userId q c"
    by (simp add: handleResize_def GifsList_def Let_def)
  have 2: "snd (handleResize q scrollRef win c) =
       (if previousWindowHeight c < innerHeight win then HandleScroll # handleScroll q scrollRef else []) \<and>
     (HandleScroll \<in> set (snd (handleResize q scrollRef win c))
        \<longleftrightarrow> previousWindowHeight c < innerHeight win)"
    by (simp add: handleResize_def Let_def)
  show ?thesis
    using 1 2 contentColumns_length [of mode "data q" "innerWidth win"] unfolding d by blast
qed

text \<open>
  C9 on a window that grows from height 400 to 700 (the scroll check runs and fetches) and
  on one whose height stays at 400 (nothing is called).
\<close>

theorem resize_deferred_geometry_witness:
  "snd (handleResize \<lparr>data = None, isFetchingNextPage = False, isLoading = False, hasNextPage = True\<rparr>
          (Some \<lparr>scrollHeight = 500, clientHeight = 700, scrollTop = 0\<rparr>)
          \<lparr>innerWidth = 600, innerHeight = 700\<rparr>
          \<lparr>windowWidth = 300, deferredWindowWidth = 300, previousWindowHeight = 400\<rparr>)
     = [HandleScroll, FetchNextPage] \<and>
   snd (handleResize \<lparr>data = None, isFetchingNextPage = False, isLoading = False, hasNextPage = True\<rparr>
          (Some \<lparr>scrollHeight = 500, clientHeight = 400, scrollTop = 0\<rparr>)
          \<lparr>innerWidth = 600, innerHeight = 400\<rparr>
          \<lparr>windowWidth = 300, deferredWindowWidth = 300, previousWindowHeight = 400\<rparr>)
     = []"
  using
    resize_deferred_geometry [of "\<lparr>data = None, isFetchingNextPage = False, isLoading = False, hasNextPage = True\<rparr>"
       "Some \<lparr>scrollHeight = 500, clientHeight = 700, scrollTop = 0\<rparr>"
       "\<lparr>innerWidth = 600, innerHeight = 700\<rparr>"
       "\<lparr>windowWidth = 300, deferredWindowWidth = 300, previousWindowHeight = 400\<rparr>"]
    resize_deferred_geometry [of "\<lparr>data = None, isFetchingNextPage = False, isLoading = False, hasNextPage = True\<rparr>"
       "Some \<lparr>scrollHeight = 500, clientHeight = 400, scrollTop = 0\<rparr>"
       "\<lparr>innerWidth = 600, innerHeight = 400\<rparr>"
       "\<lparr>windowWidth = 300, deferredWindowWidth = 300, previousWindowHeight = 400\<rparr>"]
  by (simp add: handleScroll_def)

text \<open>
  C9 as stated fails: right after a resize from width 300 to width 600 the layout is still
  computed from the deferred width 300 and has two columns of width 131, where the new width
  gives four columns of width 136.5; these come with the deferred render.
\<close>

theorem resize_deferred_geometry_counterexample:
  "contentColumns ''canvas'' None
      (deferredWindowWidth (fst (handleResize
          \<lparr>data = None, isFetchingNextPage = False, isLoading = True, hasNextPage = False\<rparr> None
          \<lparr>innerWidth = 600, innerHeight = 400\<rparr>
          \<lparr>windowWidth = 300, deferredWindowWidth = 300, previousWindowHeight = 400\<rparr>)))
     = Inr ([[], []], Num 131) \<and>
   contentColumns ''canvas'' None (innerWidth \<lparr>innerWidth = 600, innerHeight = 400\<rparr>)
     = Inr ([[], [], [], []], Num (273 / 2)) \<and>
   contentColumns ''canvas'' None
      (deferredWindowWidth (deferred_render (fst (handleResize
          \<lparr>data = None, isFetchingNextPage = False, isLoading = True, hasNextPage = False\<rparr> None
          \<lparr>innerWidth = 600, innerHeight = 400\<rparr>
          \<lparr>windowWidth = 300, deferredWindowWidth = 300, previousWindowHeight = 400\<rparr>))))
     = Inr ([[], [], [], []], Num (273 / 2))"
  by (simp add: handleResize_def deferred_render_def contentColumns_None geometry_simps js_div_def round_simps
      Let_def eval_nat_numeral)

subsection \<open>C10: the first column and the empty state\<close>

text \<open>
  C10. For every non-empty item sequence and every column count of at least 1 the first
  column of the assignment is not empty. The "No ... found" state is rendered exactly when no
  item was fetched and loading is finished: the user id is known (until then the component
  shows the loading spinner) and neither \<open>isLoading\<close> nor \<open>isFetchingNextPage\<close> holds.
\<close>

theorem first_column_and_no_results:
  "(0 < n \<and> items \<noteq> [] \<longrightarrow>
      (\<exists>st. place_results cw (initial_layout n) items = Inr st \<and> columns st ! 0 \<noteq> [])) \<and>
   ((\<exists>name. GifsList mode contentType userId q c = Inr (NoResults name)) \<longleftrightarrow>
      userId \<noteq> [] \<and> \<not> isLoading q \<and> \<not> isFetchingNextPage q \<and> fetched_items (data q) = [])"
proof -
  have 1: "0 < n \<and> items \<noteq> [] \<longrightarrow>
      (\<exists>st. place_results cw (initial_layout n) items = Inr st \<and> columns st ! 0 \<noteq> [])"
    using place_results_total [of cw "initial_layout n" items] first_column_nonempty by blast
  obtain c0 rest where cc: "contentColumns mode (data q) (deferredWindowWidth c)
        = Inr (c0 # rest, columnWidth_of mode (deferredWindowWidth c))"
    and e: "c0 = [] \<longleftrightarrow> fetched_items (data q) = []"
    using contentColumns_first_column by blast
  have 2: "(\<exists>name. GifsList mode contentType userId q c = Inr (NoResults name)) \<longleftrightarrow>
      userId \<noteq> [] \<and> \<not> isLoading q \<and> \<not> isFetchingNextPage q \<and> fetched_items (data q) = []"
    using e by (auto simp: GifsList_def cc Let_def)
  show ?thesis using 1 2 by blast
qed

text \<open>
  C10 on one item in two columns, and on a finished query with one empty page for a known
  user.
\<close>

theorem first_column_and_no_results_witness:
  "0 < (2::nat) \<and> [sample_content 1 (Num 100) (Num 100)] \<noteq> [] \<and>
   (\<exists>st. place_results (Num 131) (initial_layout 2) [sample_content 1 (Num 100) (Num 100)] = Inr st
         \<and> columns st ! 0 \<noteq> []) \<and>
   (\<exists>name. GifsList ''canvas'' Gifs ''user''
     \<lparr>data = Some \<lparr>pages = [sample_page [] 1 False]\<rparr>, isFetchingNextPage = False,
      isLoading = False, hasNextPage = False\<rparr>
     \<lparr>windowWidth = 300, deferredWindowWidth = 300, previousWindowHeight = 400\<rparr> = Inr (NoResults name))"
  using first_column_and_no_results [of 2 "[sample_content 1 (Num 100) (Num 100)]" "Num 131"
      "''canvas''" Gifs "''user''"
      "\<lparr>data = Some \<lparr>pages = [sample_page [] 1 False]\<rparr>, isFetchingNextPage = False,
        isLoading = False, hasNextPage = False\<rparr>"
      "\<lparr>windowWidth = 300, deferredWindowWidth = 300, previousWindowHeight = 400\<rparr>"]
  by (simp add: fetched_items_def)

end
